theory Spec2Isabelle
  imports Complex_Main "HOL-Library.AList" "HOL-Library.Multiset"
begin

text \<open>
  A shallow embedding of the state synchronisation and stepping code of Mini-car-3D:
  the client (\<open>game.js\<close>: fixed-step loop, ground contacts, player forces, snapshot
  buffer and interpolation, spawn slots) and the host (the server script: sessions,
  input frames, heartbeat, props).  Every section names the source function it embeds.
\<close>

section \<open>Ground contact counting (game.js, updateGroundState)\<close>

text \<open>
  JavaScript numbers are modelled by exact numbers (\<open>int\<close> for counters, \<open>real\<close> for
  times, positions and velocities), except in the section on the fixed-step loop, which
  keeps the rounding of doubles; collider and body handles are natural numbers.  A value
  that may be \<open>null\<close> or \<open>undefined\<close> is an option.
\<close>

type_synonym handle = nat

record ground_state =
  playerGroundContacts :: int
  playerGrounded :: bool

definition ground_init :: ground_state where
  "ground_init = \<lparr>playerGroundContacts = 0, playerGrounded = False\<rparr>"

text \<open>
  \<open>updateGroundState(c1, c2, started)\<close>: the first argument of the model is
  \<open>playerPhysics.collider\<close> (absent before the car exists), \<open>c1\<close> and \<open>c2\<close> are the
  colliders of the event (\<open>world.getCollider\<close> may return null).
\<close>

definition updateGroundState ::
  "handle option \<Rightarrow> handle option \<Rightarrow> handle option \<Rightarrow> bool \<Rightarrow> ground_state \<Rightarrow> ground_state" where
  "updateGroundState playerCollider c1 c2 started g =
     (case playerCollider of
        None \<Rightarrow> g
      | Some h \<Rightarrow>
          if c1 = Some h \<or> c2 = Some h then
            let n = (if started then playerGroundContacts g + 1
                     else max 0 (playerGroundContacts g - 1))
            in g\<lparr>playerGroundContacts := n, playerGrounded := (0 < n)\<rparr>
          else g)"

text \<open>A collision event as \<open>processCollisions\<close> hands it over, together with the
  player collider current at that moment.\<close>

type_synonym contact_event = "handle option \<times> handle option \<times> handle option \<times> bool"

fun contact_events :: "contact_event list \<Rightarrow> ground_state \<Rightarrow> ground_state" where
  "contact_events [] g = g"
| "contact_events ((pc, c1, c2, started) # es) g =
     contact_events es (updateGroundState pc c1 c2 started g)"

definition ground_ok :: "ground_state \<Rightarrow> bool" where
  "ground_ok g = (0 \<le> playerGroundContacts g \<and> playerGrounded g = (0 < playerGroundContacts g))"

lemma ground_ok_init: "ground_ok ground_init"
  by (simp add: ground_ok_def ground_init_def)

lemma updateGroundState_ok: "ground_ok g \<Longrightarrow> ground_ok (updateGroundState pc c1 c2 started g)"
  by (auto simp: ground_ok_def updateGroundState_def Let_def split: option.splits)

lemma contact_events_ok: "ground_ok g \<Longrightarrow> ground_ok (contact_events es g)"
proof (induction es arbitrary: g)
  case Nil
  then show ?case by simp
next
  case (Cons e es)
  obtain pc c1 c2 started where e: "e = (pc, c1, c2, started)"
    by (cases e) auto
  from Cons.prems have "ground_ok (updateGroundState pc c1 c2 started g)"
    by (rule updateGroundState_ok)
  then show ?case
    unfolding e by (simp add: Cons.IH)
qed

text \<open>
  C10.  Starting from the initial counter 0 (not grounded), after every sequence of
  contact-begin and contact-end events (whatever their order, also with more ends than
  begins) the ground-contact counter is not negative and the grounded flag equals
  (counter > 0); a contact-end of the player's collider at counter 0 leaves the counter
  at 0 and the flag false.
\<close>

theorem ground_counter_never_negative:
  "0 \<le> playerGroundContacts (contact_events es ground_init)
   \<and> playerGrounded (contact_events es ground_init)
       = (0 < playerGroundContacts (contact_events es ground_init))
   \<and> playerGroundContacts
        (updateGroundState (Some h) (Some h) c2 False (g\<lparr>playerGroundContacts := 0\<rparr>)) = 0
   \<and> playerGroundContacts
        (updateGroundState (Some h) c1 (Some h) False (g\<lparr>playerGroundContacts := 0\<rparr>)) = 0
   \<and> \<not> playerGrounded
        (updateGroundState (Some h) (Some h) c2 False (g\<lparr>playerGroundContacts := 0\<rparr>))"
proof -
  have "ground_ok (contact_events es ground_init)"
    using ground_ok_init by (rule contact_events_ok)
  then show ?thesis
    by (simp add: ground_ok_def updateGroundState_def)
qed

theorem ground_counter_never_negative_witness:
  "playerGroundContacts (contact_events
      [(Some 7, Some 7, Some 1, False), (Some 7, Some 2, Some 7, True),
       (Some 7, Some 7, Some 2, False), (Some 7, Some 7, Some 3, False)] ground_init) = 0
   \<and> \<not> playerGrounded (contact_events
      [(Some 7, Some 7, Some 1, False), (Some 7, Some 2, Some 7, True),
       (Some 7, Some 7, Some 2, False), (Some 7, Some 7, Some 3, False)] ground_init)"
  using ground_counter_never_negative
    [of "[(Some 7, Some 7, Some 1, False), (Some 7, Some 2, Some 7, True),
          (Some 7, Some 7, Some 2, False), (Some 7, Some 7, Some 3, False)]"]
  by (simp add: updateGroundState_def ground_init_def)


section \<open>Props leaving the play area (server, resetPropIfOutOfBounds)\<close>

datatype vec3 = Vec3 (vx: real) (vy: real) (vz: real)

datatype quat = Quat (qx: real) (qy: real) (qz: real) (qw: real)

definition zero3 :: vec3 where
  "zero3 = Vec3 0 0 0"

text \<open>A rigid body of the physics engine, as far as the code reads and writes it.\<close>

record body =
  translation :: vec3
  rotation :: quat
  linvel :: vec3
  angvel :: vec3

text \<open>\<open>world.getRigidBody(handle)\<close> returns null for a handle the world does not know.\<close>

type_synonym world = "handle \<rightharpoonup> body"

text \<open>An entry of \<open>props\<close>; \<open>initial_p\<close> and \<open>initial_q\<close> are the arrays
  \<open>initial.p\<close> (three numbers) and \<open>initial.q\<close> (four numbers) that \<open>createProps\<close> records.\<close>

record server_prop =
  prop_id :: string
  dynamic :: bool
  bodyHandle :: handle
  initial_p :: vec3
  initial_q :: quat

definition out_of_bounds :: "vec3 \<Rightarrow> bool" where
  "out_of_bounds t = (200 < \<bar>vx t\<bar> \<or> vy t < - 20 \<or> 200 < \<bar>vz t\<bar>)"

definition resetPropIfOutOfBounds :: "server_prop \<Rightarrow> world \<Rightarrow> world" where
  "resetPropIfOutOfBounds pr w =
     (if \<not> dynamic pr then w
      else case w (bodyHandle pr) of
        None \<Rightarrow> w
      | Some b \<Rightarrow>
          if out_of_bounds (translation b) then
            w(bodyHandle pr \<mapsto>
                b\<lparr>translation := initial_p pr, linvel := zero3, angvel := zero3,
                  rotation := initial_q pr\<rparr>)
          else w)"

text \<open>The loop \<open>for (const prop of props) resetPropIfOutOfBounds(prop)\<close> of the
  simulation timer.\<close>

fun resetProps :: "server_prop list \<Rightarrow> world \<Rightarrow> world" where
  "resetProps [] w = w"
| "resetProps (pr # ps) w = resetProps ps (resetPropIfOutOfBounds pr w)"

lemma resetPropIfOutOfBounds_dom: "dom (resetPropIfOutOfBounds pr w) = dom w"
  by (auto simp: resetPropIfOutOfBounds_def split: option.splits if_splits)

lemma resetProps_dom: "dom (resetProps ps w) = dom w"
  by (induction ps arbitrary: w) (simp_all add: resetPropIfOutOfBounds_dom)

text \<open>
  C9.  A dynamic prop whose body exists and whose position is out of bounds
  (|x| > 200, or y < -20, or |z| > 200) gets its recorded initial translation and
  rotation back, with zero linear and zero angular velocity; in every other case (inside
  the bounds, not dynamic, no body for the handle) the world is unchanged.  No body is
  ever removed from the world, neither by one check nor by the loop over all props.
\<close>

theorem resetPropIfOutOfBounds_correct:
  "resetPropIfOutOfBounds pr w =
     (case w (bodyHandle pr) of
        Some b \<Rightarrow>
          if dynamic pr \<and> (200 < \<bar>vx (translation b)\<bar> \<or> vy (translation b) < - 20
                              \<or> 200 < \<bar>vz (translation b)\<bar>)
          then w(bodyHandle pr \<mapsto>
                   b\<lparr>translation := initial_p pr, linvel := Vec3 0 0 0,
                     angvel := Vec3 0 0 0, rotation := initial_q pr\<rparr>)
          else w
      | None \<Rightarrow> w)
   \<and> dom (resetPropIfOutOfBounds pr w) = dom w
   \<and> dom (resetProps ps w) = dom w"
proof -
  have eq: "resetPropIfOutOfBounds pr w =
     (case w (bodyHandle pr) of
        Some b \<Rightarrow>
          if dynamic pr \<and> (200 < \<bar>vx (translation b)\<bar> \<or> vy (translation b) < - 20
                              \<or> 200 < \<bar>vz (translation b)\<bar>)
          then w(bodyHandle pr \<mapsto>
                   b\<lparr>translation := initial_p pr, linvel := Vec3 0 0 0,
                     angvel := Vec3 0 0 0, rotation := initial_q pr\<rparr>)
          else w
      | None \<Rightarrow> w)"
    by (simp add: resetPropIfOutOfBounds_def out_of_bounds_def zero3_def split: option.splits)
  show ?thesis
    by (intro conjI eq resetPropIfOutOfBounds_dom resetProps_dom)
qed

definition demo_body :: body where
  "demo_body = \<lparr>translation = Vec3 250 1 0, rotation = Quat 0 1 0 0,
                 linvel = Vec3 3 0 1, angvel = Vec3 0 2 0\<rparr>"

definition demo_prop :: server_prop where
  "demo_prop = \<lparr>prop_id = ''p3'', dynamic = True, bodyHandle = 4,
                 initial_p = Vec3 5 (1/2) (- 7), initial_q = Quat 0 0 0 1\<rparr>"

theorem resetPropIfOutOfBounds_correct_witness:
  "resetPropIfOutOfBounds demo_prop [4 \<mapsto> demo_body] 4
     = Some \<lparr>translation = Vec3 5 (1/2) (- 7), rotation = Quat 0 0 0 1,
             linvel = Vec3 0 0 0, angvel = Vec3 0 0 0\<rparr>
   \<and> resetPropIfOutOfBounds (demo_prop\<lparr>dynamic := False\<rparr>) [4 \<mapsto> demo_body] 4
     = Some demo_body
   \<and> resetPropIfOutOfBounds demo_prop [4 \<mapsto> demo_body\<lparr>translation := Vec3 200 (- 20) 0\<rparr>] 4
     = Some (demo_body\<lparr>translation := Vec3 200 (- 20) 0\<rparr>)"
  using resetPropIfOutOfBounds_correct [of demo_prop "[4 \<mapsto> demo_body]"]
    resetPropIfOutOfBounds_correct [of "demo_prop\<lparr>dynamic := False\<rparr>" "[4 \<mapsto> demo_body]"]
    resetPropIfOutOfBounds_correct
      [of demo_prop "[4 \<mapsto> demo_body\<lparr>translation := Vec3 200 (- 20) 0\<rparr>]"]
  by (simp add: demo_prop_def demo_body_def)

section \<open>The fixed-step loop of the render frame (game.js, tick)\<close>

subsection \<open>JavaScript numbers: IEEE binary64\<close>

text \<open>
  The accumulator of \<open>tick\<close> is a JavaScript number, an IEEE 754 double, and the loop
  subtracts from it again and again, so this section keeps the rounding.  A double is
  modelled by the real number it denotes; every arithmetic operation of the code is the
  exact operation followed by \<open>fl\<close>, rounding to the nearest double, ties to the even
  significand.  \<open>expo x\<close> is the binary exponent of \<open>x\<close>, not below \<open>-1022\<close> (below that the
  doubles are subnormal and equally spaced); the spacing of the doubles around \<open>x\<close> is
  \<open>2 powi (expo x - 52)\<close>.  Infinities and NaN are not modelled: the timestamps of
  frames are far from the overflow threshold \<open>2 ^ 1024\<close>.
\<close>

fun expo_up :: "nat \<Rightarrow> real \<Rightarrow> int" where
  "expo_up 0 x = 0"
| "expo_up (Suc n) x = (if 2 \<le> x then expo_up n (x / 2) + 1 else 0)"

fun expo_down :: "nat \<Rightarrow> real \<Rightarrow> int" where
  "expo_down 0 x = 0"
| "expo_down (Suc n) x = (if x < 1 then expo_down n (x * 2) - 1 else 0)"

definition expo :: "real \<Rightarrow> int" where
  "expo x = (if 1 \<le> \<bar>x\<bar> then expo_up 1023 \<bar>x\<bar> else expo_down 1022 \<bar>x\<bar>)"

definition round_even :: "real \<Rightarrow> int" where
  "round_even y =
     (let f = \<lfloor>y\<rfloor>; d = y - of_int f
      in if d < 1 / 2 then f else if 1 / 2 < d then f + 1 else if even f then f else f + 1)"

definition fl :: "real \<Rightarrow> real" where
  "fl x = (let q = 2 powi (expo x - 52) in of_int (round_even (x / q)) * q)"

subsection \<open>The frame\<close>

text \<open>\<open>const FIXED_DT = 1 / 60\<close> is the quotient of two doubles; \<open>0.25\<close> is a double.\<close>

definition FIXED_DT :: real where
  "FIXED_DT = fl (1 / 60)"

definition MAX_ACCUM :: real where
  "MAX_ACCUM = 0.25"

text \<open>
  The inner loop \<open>while (accumulator >= FIXED_DT) { stepPhysics(FIXED_DT); accumulator -= FIXED_DT; }\<close>.
  The physics step itself belongs to the engine; the model records each call of
  \<open>stepPhysics\<close> by the \<open>dt\<close> it is given, in call order.  A loop that does not end has no
  result.
\<close>

partial_function (option) step_loop :: "real \<Rightarrow> real list \<Rightarrow> (real \<times> real list) option" where
  "step_loop accumulator calls =
     (if accumulator \<ge> FIXED_DT
      then step_loop (fl (accumulator - FIXED_DT)) (calls @ [FIXED_DT])
      else Some (accumulator, calls))"

declare step_loop.simps [code]

text \<open>The variables \<open>accumulator\<close> and \<open>last\<close> of the module (\<open>last_ts\<close> here).\<close>

record tick_state =
  accumulator :: real
  last_ts :: real

text \<open>What one frame does to the physics: the \<open>dt\<close> of every \<open>stepPhysics\<close> call
  and the \<open>alpha\<close> handed to \<open>syncPhysicsToMeshes\<close> (none when the loop is skipped).\<close>

record frame_out =
  step_calls :: "real list"
  alpha_out :: "real option"

text \<open>
  \<open>tick(now)\<close>, as far as the accumulator goes.  \<open>offline\<close> stands for the condition
  \<open>NETWORK.mode === "offline" && offlineWorldReady\<close>.  The literal \<open>0.05\<close> is the double
  nearest to it.
\<close>

definition tick :: "real \<Rightarrow> bool \<Rightarrow> tick_state \<Rightarrow> (tick_state \<times> frame_out) option" where
  "tick now offline s =
     (let dt = min (fl (fl (now - last_ts s) / 1000)) (fl 0.05) in
      if offline then
        (let capped = min (fl (accumulator s + dt)) MAX_ACCUM
         in case step_loop capped [] of
              None \<Rightarrow> None
            | Some (rest, calls) \<Rightarrow>
                Some (\<lparr>accumulator = rest, last_ts = now\<rparr>,
                      \<lparr>step_calls = calls, alpha_out = Some (fl (rest / FIXED_DT))\<rparr>))
      else Some (\<lparr>accumulator = 0, last_ts = now\<rparr>, \<lparr>step_calls = [], alpha_out = None\<rparr>))"

text \<open>A run of frames: each frame has its timestamp and the mode it finds.\<close>

fun run_ticks :: "(real \<times> bool) list \<Rightarrow> tick_state \<Rightarrow> tick_state option" where
  "run_ticks [] s = Some s"
| "run_ticks ((now, offline) # fs) s =
     (case tick now offline s of None \<Rightarrow> None | Some (s', out) \<Rightarrow> run_ticks fs s')"

text \<open>The module starts with \<open>accumulator = 0\<close> and \<open>last = performance.now()\<close>.\<close>

definition tick_init :: "real \<Rightarrow> tick_state" where
  "tick_init t0 = \<lparr>accumulator = 0, last_ts = t0\<rparr>"

text \<open>Frame timestamps do not run backwards: each is at least its predecessor.\<close>

fun chronological :: "real \<Rightarrow> real list \<Rightarrow> bool" where
  "chronological t [] = True"
| "chronological t (n # ns) = (t \<le> n \<and> chronological n ns)"

text \<open>A run to evaluate: the program starts at time 0 and a frame comes every 15 ms.\<close>

definition frames_15ms :: "(real \<times> bool) list" where
  "frames_15ms = [(15, True), (30, True), (45, True), (60, True), (75, True), (90, True),
                  (105, True), (120, True), (135, True)]"

subsection \<open>Rounding: sign and error\<close>

lemma round_even_error: "\<bar>of_int (round_even y) - y\<bar> \<le> 1 / 2"
proof -
  have "of_int \<lfloor>y\<rfloor> \<le> y" "y < of_int \<lfloor>y\<rfloor> + 1"
    by linarith+
  then show ?thesis
    by (auto simp: round_even_def Let_def)
qed

lemma round_even_nonneg: "0 \<le> y \<Longrightarrow> 0 \<le> round_even y"
proof -
  assume "0 \<le> y"
  then have "0 \<le> \<lfloor>y\<rfloor>"
    by simp
  then show ?thesis
    by (auto simp: round_even_def Let_def)
qed

lemma fl_nonneg: "0 \<le> x \<Longrightarrow> 0 \<le> fl x"
  by (simp add: fl_def Let_def round_even_nonneg)

lemma fl_zero: "fl 0 = 0"
  by (simp add: fl_def round_even_def)

lemma expo_down_le_0: "expo_down n x \<le> 0"
proof (induction n arbitrary: x)
  case 0
  then show ?case by simp
next
  case (Suc n)
  from Suc [of "x * 2"] show ?case by simp
qed

lemma expo_down_quarter:
  assumes "x < 1 / 4"
  shows "expo_down (Suc (Suc (Suc k))) x \<le> - 3"
proof -
  have "expo_down (Suc (Suc (Suc k))) x = expo_down k (x * 2 * 2 * 2) - 3"
    using assms by simp
  moreover have "expo_down k (x * 2 * 2 * 2) \<le> 0"
    by (rule expo_down_le_0)
  ultimately show ?thesis
    by linarith
qed

lemma expo_small:
  assumes "0 \<le> x" "x < 1 / 4"
  shows "expo x \<le> - 3"
proof -
  have n: "(1022::nat) = Suc (Suc (Suc 1019))"
    by simp
  have "expo_down 1022 x \<le> - 3"
    unfolding n using assms(2) by (rule expo_down_quarter)
  then show ?thesis
    using assms by (simp add: expo_def)
qed

lemma fl_error_small:
  assumes "0 \<le> x" "x < 1 / 4"
  shows "\<bar>fl x - x\<bar> \<le> 1 / 2 ^ 56"
proof -
  define q :: real where "q = 2 powi (expo x - 52)"
  have qpos: "0 < q"
    by (simp add: q_def)
  have "expo x - 52 \<le> - 55"
    using expo_small [OF assms] by simp
  then have "q \<le> 2 powi (- 55)"
    unfolding q_def by (intro power_int_increasing) simp_all
  moreover have "(2::real) powi (- 55) = 1 / 2 ^ 55"
    by (simp add: inverse_eq_divide)
  ultimately have q55: "q \<le> 1 / 2 ^ 55"
    by simp
  have "fl x - x = (of_int (round_even (x / q)) - x / q) * q"
    using qpos by (simp add: fl_def Let_def q_def [symmetric] algebra_simps)
  then have "\<bar>fl x - x\<bar> = \<bar>of_int (round_even (x / q)) - x / q\<bar> * q"
    using qpos by (simp add: abs_mult)
  also have "\<dots> \<le> 1 / 2 * q"
    using round_even_error [of "x / q"] qpos by (intro mult_right_mono) simp_all
  also have "\<dots> \<le> 1 / 2 * (1 / 2 ^ 55)"
    using q55 by simp
  finally show ?thesis
    by simp
qed

subsection \<open>Rounding: order and grids\<close>

lemma round_even_bounds: "\<lfloor>y\<rfloor> \<le> round_even y \<and> round_even y \<le> \<lfloor>y\<rfloor> + 1"
  by (simp add: round_even_def Let_def)

lemma round_even_mono:
  assumes "x \<le> y"
  shows "round_even x \<le> round_even y"
proof (cases "\<lfloor>x\<rfloor> = \<lfloor>y\<rfloor>")
  case True
  with assms have "x - of_int \<lfloor>y\<rfloor> \<le> y - of_int \<lfloor>y\<rfloor>"
    by simp
  with True show ?thesis
    by (auto simp: round_even_def Let_def)
next
  case False
  moreover from assms have "\<lfloor>x\<rfloor> \<le> \<lfloor>y\<rfloor>"
    by (rule floor_mono)
  ultimately have "\<lfloor>x\<rfloor> + 1 \<le> \<lfloor>y\<rfloor>"
    by simp
  with round_even_bounds [of x] round_even_bounds [of y] show ?thesis
    by linarith
qed

lemma round_even_of_int: "round_even (of_int k) = k"
  by (simp add: round_even_def)

lemma round_even_le: "x \<le> of_int k \<Longrightarrow> round_even x \<le> k"
  using round_even_mono [of x "of_int k"] by (simp add: round_even_of_int)

lemma round_even_ge: "of_int k \<le> x \<Longrightarrow> k \<le> round_even x"
  using round_even_mono [of "of_int k" x] by (simp add: round_even_of_int)

lemma inv_pow_le_1: "(1::real) / 2 ^ n \<le> 1"
proof -
  have "(1::real) \<le> 2 ^ n"
    by (rule one_le_power) simp
  then show ?thesis
    by (simp add: divide_le_eq_1)
qed

lemma expo_down_upper: "x < 1 / 2 ^ k \<Longrightarrow> k < n \<Longrightarrow> expo_down n x \<le> - int k - 1"
proof (induction k arbitrary: n x)
  case 0
  then obtain n' where n: "n = Suc n'"
    by (cases n) auto
  from 0 expo_down_le_0 [of n' "x * 2"] show ?case
    unfolding n by simp
next
  case (Suc k)
  then obtain n' where n: "n = Suc n'"
    by (cases n) auto
  from Suc.prems(1) inv_pow_le_1 [of "Suc k"] have x1: "x < 1"
    by linarith
  from Suc.prems(1) have "x * 2 < 1 / 2 ^ k"
    by (simp add: field_simps)
  moreover from Suc.prems(2) have "k < n'"
    by (simp add: n)
  ultimately have "expo_down n' (x * 2) \<le> - int k - 1"
    by (rule Suc.IH)
  with x1 show ?case
    unfolding n by simp
qed

lemma expo_down_lower: "1 / 2 ^ k \<le> x \<Longrightarrow> - int k \<le> expo_down n x"
proof (induction k arbitrary: n x)
  case 0
  then show ?case
    by (cases n) simp_all
next
  case (Suc k)
  show ?case
  proof (cases n)
    case 0
    then show ?thesis by simp
  next
    case (Suc n')
    from Suc.prems have "1 / 2 ^ k \<le> x * 2"
      by (simp add: field_simps)
    then have "- int k \<le> expo_down n' (x * 2)"
      by (rule Suc.IH)
    then show ?thesis
      unfolding Suc by simp
  qed
qed

lemma expo_up_nonneg: "0 \<le> expo_up n x"
proof (induction n arbitrary: x)
  case 0
  then show ?case by simp
next
  case (Suc n)
  from Suc [of "x / 2"] show ?case by simp
qed

lemma expo_upper:
  assumes "0 \<le> x" "x < 1 / 2 ^ k" "k < 1022"
  shows "expo x \<le> - int k - 1"
proof -
  from assms(2) inv_pow_le_1 [of k] have "x < 1"
    by linarith
  with assms(1) have "expo x = expo_down 1022 x"
    by (simp add: expo_def)
  with expo_down_upper [OF assms(2,3)] show ?thesis
    by simp
qed

lemma expo_lower:
  assumes "1 / 2 ^ k \<le> x"
  shows "- int k \<le> expo x"
proof -
  have "(0::real) < 1 / 2 ^ k"
    by simp
  with assms have x0: "0 < x"
    by linarith
  show ?thesis
  proof (cases "1 \<le> x")
    case True
    with x0 have "expo x = expo_up 1023 x"
      by (simp add: expo_def)
    with expo_up_nonneg [of 1023 x] show ?thesis
      by simp
  next
    case False
    with x0 have "expo x = expo_down 1022 x"
      by (simp add: expo_def)
    with expo_down_lower [OF assms, of 1022] show ?thesis
      by simp
  qed
qed

lemma quantum_finer:
  assumes "e \<le> 52 - int j"
  shows "\<exists>i::nat. (2::real) powi (e - 52) * 2 ^ i = 1 / 2 ^ j"
proof -
  define i where "i = nat (52 - int j - e)"
  have "(2::real) powi (e - 52) * 2 powi (int i) = 2 powi (e - 52 + int i)"
    by (simp add: power_int_add)
  moreover have "e - 52 + int i = - int j"
    using assms by (simp add: i_def)
  moreover have "(2::real) powi (- int j) = 1 / 2 ^ j"
    by (simp add: power_int_minus inverse_eq_divide)
  ultimately have "(2::real) powi (e - 52) * 2 ^ i = 1 / 2 ^ j"
    by simp
  then show ?thesis ..
qed

lemma quantum_coarser:
  assumes "52 - int j \<le> e"
  shows "\<exists>i::nat. (2::real) powi (e - 52) = 2 ^ i / 2 ^ j"
proof -
  define i where "i = nat (e - 52 + int j)"
  have "(2::real) powi (int i) * 2 powi (- int j) = 2 powi (int i + - int j)"
    by (rule power_int_add [symmetric]) simp
  moreover have "int i + - int j = e - 52"
    using assms by (simp add: i_def)
  moreover have "(2::real) powi (- int j) = 1 / 2 ^ j"
    by (simp add: power_int_minus inverse_eq_divide)
  ultimately have "(2::real) powi (e - 52) = 2 ^ i / 2 ^ j"
    by simp
  then show ?thesis ..
qed

lemma fl_le_grid:
  assumes "expo x \<le> 52 - int j" "x \<le> of_int G / 2 ^ j"
  shows "fl x \<le> of_int G / 2 ^ j"
proof -
  define q :: real where "q = 2 powi (expo x - 52)"
  have qpos: "0 < q"
    by (simp add: q_def)
  from quantum_finer [OF assms(1)] obtain i :: nat where i: "q * 2 ^ i = 1 / 2 ^ j"
    unfolding q_def by blast
  have "of_int (G * 2 ^ i) * q = of_int G * (q * 2 ^ i)"
    by simp
  then have g: "of_int G / 2 ^ j = of_int (G * 2 ^ i) * q"
    unfolding i by simp
  with assms(2) qpos have "x / q \<le> of_int (G * 2 ^ i)"
    by (simp add: pos_divide_le_eq)
  then have "round_even (x / q) \<le> G * 2 ^ i"
    by (rule round_even_le)
  then have "(of_int (round_even (x / q)) :: real) \<le> of_int (G * 2 ^ i)"
    by (simp only: of_int_le_iff)
  with qpos have "of_int (round_even (x / q)) * q \<le> of_int (G * 2 ^ i) * q"
    by (simp only: mult_le_cancel_right_pos)
  then show ?thesis
    unfolding g by (simp add: fl_def Let_def q_def)
qed

lemma fl_ge_grid:
  assumes "expo x \<le> 52 - int j" "of_int G / 2 ^ j \<le> x"
  shows "of_int G / 2 ^ j \<le> fl x"
proof -
  define q :: real where "q = 2 powi (expo x - 52)"
  have qpos: "0 < q"
    by (simp add: q_def)
  from quantum_finer [OF assms(1)] obtain i :: nat where i: "q * 2 ^ i = 1 / 2 ^ j"
    unfolding q_def by blast
  have "of_int (G * 2 ^ i) * q = of_int G * (q * 2 ^ i)"
    by simp
  then have g: "of_int G / 2 ^ j = of_int (G * 2 ^ i) * q"
    unfolding i by simp
  with assms(2) qpos have "of_int (G * 2 ^ i) \<le> x / q"
    by (simp add: pos_le_divide_eq)
  then have "G * 2 ^ i \<le> round_even (x / q)"
    by (rule round_even_ge)
  then have "(of_int (G * 2 ^ i) :: real) \<le> of_int (round_even (x / q))"
    by (simp only: of_int_le_iff)
  with qpos have "of_int (G * 2 ^ i) * q \<le> of_int (round_even (x / q)) * q"
    by (simp only: mult_le_cancel_right_pos)
  then show ?thesis
    unfolding g by (simp add: fl_def Let_def q_def)
qed

lemma fl_exact:
  assumes "expo x \<le> 52 - int j" "x = of_int G / 2 ^ j"
  shows "fl x = x"
proof -
  from assms have "fl x \<le> of_int G / 2 ^ j" "of_int G / 2 ^ j \<le> fl x"
    by (simp_all add: fl_le_grid fl_ge_grid)
  with assms(2) show ?thesis
    by simp
qed

lemma fl_on_grid:
  assumes "52 - int j \<le> expo x"
  shows "\<exists>K::int. fl x = of_int K / 2 ^ j"
proof -
  from quantum_coarser [OF assms] obtain i :: nat where
    i: "(2::real) powi (expo x - 52) = 2 ^ i / 2 ^ j"
    by blast
  have "fl x = of_int (round_even (x / (2 ^ i / 2 ^ j)) * 2 ^ i) / 2 ^ j"
    by (simp add: fl_def Let_def i)
  then show ?thesis ..
qed

lemma fl_at:
  assumes "expo x = 52 - int j"
  shows "fl x = of_int (round_even (x * 2 ^ j)) / 2 ^ j"
proof -
  have "expo x - 52 = - int j"
    using assms by simp
  then have "(2::real) powi (expo x - 52) = 1 / 2 ^ j"
    by (simp add: power_int_minus inverse_eq_divide)
  then show ?thesis
    by (simp add: fl_def Let_def)
qed


subsection \<open>Evaluation on numerals\<close>

text \<open>
  Rewrite rules that compute \<open>fl\<close> at a numeral or a quotient of numerals, and only there.
\<close>

lemma expo_down_numeral:
  "expo_down (numeral k) x = (if x < 1 then expo_down (pred_numeral k) (x * 2) - 1 else 0)"
  by (simp add: numeral_eq_Suc)

lemma expo_up_numeral:
  "expo_up (numeral k) x = (if 2 \<le> x then expo_up (pred_numeral k) (x / 2) + 1 else 0)"
  by (simp add: numeral_eq_Suc)

lemmas fl_unfold = fl_def expo_def expo_down_numeral expo_up_numeral round_even_def Let_def

lemma fl_frac:
  "fl (numeral a / numeral b) =
     of_int (round_even (numeral a / numeral b / 2 powi (expo (numeral a / numeral b) - 52)))
       * 2 powi (expo (numeral a / numeral b) - 52)"
  by (simp add: fl_def Let_def)

lemma fl_inv:
  "fl (1 / numeral b) =
     of_int (round_even (1 / numeral b / 2 powi (expo (1 / numeral b) - 52)))
       * 2 powi (expo (1 / numeral b) - 52)"
  by (simp add: fl_def Let_def)

lemma fl_num:
  "fl (numeral a) =
     of_int (round_even (numeral a / 2 powi (expo (numeral a) - 52))) * 2 powi (expo (numeral a) - 52)"
  by (simp add: fl_def Let_def)

lemma fl_one: "fl 1 = 1"
  by (simp add: fl_unfold)

lemmas fl_numerals = fl_frac fl_inv fl_num fl_one fl_zero expo_def expo_down_numeral expo_up_numeral
  round_even_def Let_def

lemma FIXED_DT_value: "FIXED_DT = 4803839602528529 / 2 ^ 58"
  unfolding FIXED_DT_def by code_simp

lemma fl_005_value: "fl 0.05 = 3602879701896397 / 2 ^ 56"
  by code_simp

subsection \<open>The loop ends\<close>

lemma step_loop_bounded:
  assumes "0 \<le> a" "a \<le> 1 / 4" "a < FIXED_DT + real N * (FIXED_DT - 1 / 2 ^ 56)"
  shows "\<exists>n r. step_loop a calls = Some (r, calls @ replicate n FIXED_DT)
           \<and> n \<le> N \<and> 0 \<le> r \<and> r < FIXED_DT
           \<and> \<bar>r - (a - real n * FIXED_DT)\<bar> \<le> real n / 2 ^ 56"
  using assms
proof (induction N arbitrary: a calls)
  case 0
  then have "a < FIXED_DT"
    by simp
  then have "step_loop a calls = Some (a, calls @ replicate 0 FIXED_DT)"
    by (subst step_loop.simps) simp
  with 0 \<open>a < FIXED_DT\<close> show ?case
    by (intro exI [of _ 0] exI [of _ a]) simp
next
  case (Suc N)
  show ?case
  proof (cases "a < FIXED_DT")
    case True
    then have "step_loop a calls = Some (a, calls @ replicate 0 FIXED_DT)"
      by (subst step_loop.simps) simp
    with Suc.prems True show ?thesis
      by (intro exI [of _ 0] exI [of _ a]) simp
  next
    case False
    define a' where "a' = fl (a - FIXED_DT)"
    have Fpos: "0 < FIXED_DT" "1 / 2 ^ 56 < FIXED_DT"
      by (simp_all add: FIXED_DT_value)
    from False have d0: "0 \<le> a - FIXED_DT"
      by simp
    from Suc.prems(2) Fpos have d1: "a - FIXED_DT < 1 / 4"
      by simp
    have err: "\<bar>a' - (a - FIXED_DT)\<bar> \<le> 1 / 2 ^ 56"
      unfolding a'_def using d0 d1 by (rule fl_error_small)
    have a'0: "0 \<le> a'"
      unfolding a'_def using d0 by (rule fl_nonneg)
    from err have up: "a' \<le> a - (FIXED_DT - 1 / 2 ^ 56)"
      by linarith
    with Suc.prems(2) Fpos have a'q: "a' \<le> 1 / 4"
      by linarith
    have "real (Suc N) * (FIXED_DT - 1 / 2 ^ 56)
        = real N * (FIXED_DT - 1 / 2 ^ 56) + (FIXED_DT - 1 / 2 ^ 56)"
      by (simp add: algebra_simps)
    with up Suc.prems(3) have a'N: "a' < FIXED_DT + real N * (FIXED_DT - 1 / 2 ^ 56)"
      by linarith
    from Suc.IH [OF a'0 a'q a'N, of "calls @ [FIXED_DT]"] obtain n r where
      nr: "step_loop a' (calls @ [FIXED_DT]) = Some (r, (calls @ [FIXED_DT]) @ replicate n FIXED_DT)"
        "n \<le> N" "0 \<le> r" "r < FIXED_DT" "\<bar>r - (a' - real n * FIXED_DT)\<bar> \<le> real n / 2 ^ 56"
      by blast
    have "step_loop a calls = step_loop a' (calls @ [FIXED_DT])"
      using False by (subst step_loop.simps) (simp add: a'_def)
    with nr(1) have run: "step_loop a calls = Some (r, calls @ replicate (Suc n) FIXED_DT)"
      by (simp add: replicate_app_Cons_same)
    have "\<bar>r - (a - real (Suc n) * FIXED_DT)\<bar>
        \<le> \<bar>r - (a' - real n * FIXED_DT)\<bar> + \<bar>a' - (a - FIXED_DT)\<bar>"
      by (simp add: algebra_simps)
    also have "\<dots> \<le> real n / 2 ^ 56 + 1 / 2 ^ 56"
      using nr(5) err by linarith
    also have "\<dots> = real (Suc n) / 2 ^ 56"
      by (simp add: field_simps)
    finally have e: "\<bar>r - (a - real (Suc n) * FIXED_DT)\<bar> \<le> real (Suc n) / 2 ^ 56" .
    from run nr(2,3,4) e show ?thesis
      by (intro exI [of _ "Suc n"] exI [of _ r]) simp
  qed
qed

lemma step_loop_capped:
  assumes "0 \<le> a" "a \<le> 1 / 4"
  shows "\<exists>n r. step_loop a [] = Some (r, replicate n FIXED_DT)
           \<and> n \<le> 15 \<and> 0 \<le> r \<and> r < FIXED_DT
           \<and> \<bar>r - (a - real n * FIXED_DT)\<bar> \<le> real n / 2 ^ 56"
proof -
  have "(1 / 4 :: real) < FIXED_DT + real (15::nat) * (FIXED_DT - 1 / 2 ^ 56)"
    by (simp add: FIXED_DT_value)
  with assms(2) have "a < FIXED_DT + real (15::nat) * (FIXED_DT - 1 / 2 ^ 56)"
    by linarith
  from step_loop_bounded [OF assms this, of "[]"] show ?thesis
    by simp
qed


subsection \<open>The loop, subtraction by subtraction\<close>

lemma step_loop_stop: "a < FIXED_DT \<Longrightarrow> step_loop a calls = Some (a, calls)"
  by (subst step_loop.simps) simp

lemma step_loop_step:
  "FIXED_DT \<le> a \<Longrightarrow> step_loop a calls = step_loop (fl (a - FIXED_DT)) (calls @ [FIXED_DT])"
  by (subst step_loop.simps) simp

lemmas step_loop_run = FIXED_DT_value step_loop_stop step_loop_step fl_numerals

lemma FIXED_DT_range: "1 / 2 ^ 6 \<le> FIXED_DT" "FIXED_DT < 1 / 2 ^ 5" "1 / 2 ^ 5 \<le> 2 * FIXED_DT"
  "3 * FIXED_DT < 1 / 2 ^ 4" "1 / 2 ^ 4 \<le> 4 * FIXED_DT" "0 < FIXED_DT"
  by (simp_all add: FIXED_DT_value)

lemma sub_1:
  assumes "c = of_int K / 2 ^ 58" "FIXED_DT \<le> c" "c < 2 * FIXED_DT"
  shows "fl (c - FIXED_DT) = c - FIXED_DT"
proof -
  define z where "z = c - FIXED_DT"
  have z: "z = of_int (K - 4803839602528529) / 2 ^ 58"
    unfolding z_def assms(1) FIXED_DT_value by (simp add: diff_divide_distrib)
  from assms(2,3) FIXED_DT_range(2) have "0 \<le> z" "z < 1 / 2 ^ 5"
    unfolding z_def by linarith+
  then have "expo z \<le> - int 5 - 1"
    by (intro expo_upper) simp_all
  then have "expo z \<le> 52 - int 58"
    by simp
  then have "fl z = z"
    using z by (rule fl_exact)
  then show ?thesis
    by (simp only: z_def)
qed

lemma sub_2:
  assumes "c = of_int K / 2 ^ 57" "2 * FIXED_DT \<le> c" "c < 3 * FIXED_DT"
  shows "FIXED_DT \<le> fl (c - FIXED_DT) \<and> fl (c - FIXED_DT) < 2 * FIXED_DT
         \<and> (\<exists>K'::int. fl (c - FIXED_DT) = of_int K' / 2 ^ 58)"
proof -
  define z where "z = c - FIXED_DT"
  have z: "z = of_int (2 * K - 4803839602528529) / 2 ^ 58"
    unfolding z_def assms(1) FIXED_DT_value by (simp add: diff_divide_distrib)
  from assms(3) have "real_of_int (2 * K) < real_of_int 14411518807585587"
    unfolding assms(1) FIXED_DT_value by simp
  then have "2 * K < 14411518807585587"
    by (simp only: of_int_less_iff)
  then have K: "2 * K - 4803839602528529 \<le> 9607679205057057"
    by simp
  from assms(2,3) have zr: "FIXED_DT \<le> z" "z < 2 * FIXED_DT"
    unfolding z_def by linarith+
  from zr(1) FIXED_DT_range(1) have "1 / 2 ^ 6 \<le> z"
    by linarith
  then have "- int 6 \<le> expo z"
    by (rule expo_lower)
  then have "52 - int 58 \<le> expo z"
    by simp
  then have grid: "\<exists>K'::int. fl z = of_int K' / 2 ^ 58"
    by (rule fl_on_grid)
  have "FIXED_DT \<le> fl z \<and> fl z < 2 * FIXED_DT"
  proof (cases "z < 1 / 2 ^ 5")
    case True
    from zr(1) FIXED_DT_range(6) have "0 \<le> z"
      by linarith
    with True have "expo z \<le> - int 5 - 1"
      by (intro expo_upper) simp_all
    then have e: "expo z \<le> 52 - int 58"
      by simp
    from zr(1) have "of_int 4803839602528529 / 2 ^ 58 \<le> z"
      by (simp add: FIXED_DT_value)
    with e have "of_int 4803839602528529 / 2 ^ 58 \<le> fl z"
      by (rule fl_ge_grid)
    then have lo: "FIXED_DT \<le> fl z"
      by (simp add: FIXED_DT_value)
    from True have "z \<le> of_int 9007199254740992 / 2 ^ 58"
      by simp
    with e have "fl z \<le> of_int 9007199254740992 / 2 ^ 58"
      by (rule fl_le_grid)
    then have "fl z < 2 * FIXED_DT"
      by (simp add: FIXED_DT_value)
    with lo show ?thesis ..
  next
    case False
    then have z5: "1 / 2 ^ 5 \<le> z"
      by simp
    then have "- int 5 \<le> expo z"
      by (rule expo_lower)
    moreover from zr FIXED_DT_range(4,6) have "0 \<le> z" "z < 1 / 2 ^ 4"
      by linarith+
    then have "expo z \<le> - int 4 - 1"
      by (intro expo_upper) simp_all
    ultimately have e: "expo z = 52 - int 57"
      by simp
    from z5 have "of_int 4503599627370496 / 2 ^ 57 \<le> z"
      by simp
    with e have "of_int 4503599627370496 / 2 ^ 57 \<le> fl z"
      by (intro fl_ge_grid) simp_all
    then have lo: "FIXED_DT \<le> fl z"
      by (simp add: FIXED_DT_value)
    from K have "real_of_int (2 * K - 4803839602528529) \<le> real_of_int 9607679205057057"
      by (simp only: of_int_le_iff)
    then have "z * 2 ^ 57 \<le> 9607679205057057 / 2"
      unfolding z by simp
    then have "round_even (z * 2 ^ 57) \<le> round_even (9607679205057057 / 2)"
      by (rule round_even_mono)
    also have "round_even (9607679205057057 / 2) = 4803839602528528"
      by (simp add: round_even_def)
    finally have "real_of_int (round_even (z * 2 ^ 57)) \<le> real_of_int 4803839602528528"
      by (simp only: of_int_le_iff)
    then have "fl z \<le> 4803839602528528 / 2 ^ 57"
      unfolding fl_at [OF e] by (simp add: divide_right_mono)
    then have "fl z < 2 * FIXED_DT"
      by (simp add: FIXED_DT_value)
    with lo show ?thesis ..
  qed
  with grid show ?thesis
    by (simp only: z_def)
qed

lemma sub_3:
  assumes "c = of_int K / 2 ^ 57" "3 * FIXED_DT \<le> c" "c < 4 * FIXED_DT"
  shows "2 * FIXED_DT \<le> fl (c - FIXED_DT) \<and> fl (c - FIXED_DT) < 3 * FIXED_DT
         \<and> (\<exists>K'::int. fl (c - FIXED_DT) = of_int K' / 2 ^ 57)"
proof -
  define z where "z = c - FIXED_DT"
  have z: "z = of_int (2 * K - 4803839602528529) / 2 ^ 58"
    unfolding z_def assms(1) FIXED_DT_value by (simp add: diff_divide_distrib)
  from assms(3) have "real_of_int K < real_of_int 9607679205057058"
    unfolding assms(1) FIXED_DT_value by simp
  then have "K < 9607679205057058"
    by (simp only: of_int_less_iff)
  then have K: "2 * K - 4803839602528529 \<le> 14411518807585585"
    by simp
  from assms(2,3) have zr: "2 * FIXED_DT \<le> z" "z < 3 * FIXED_DT"
    unfolding z_def by linarith+
  from zr(1) FIXED_DT_range(3) have z5: "1 / 2 ^ 5 \<le> z"
    by linarith
  then have "- int 5 \<le> expo z"
    by (rule expo_lower)
  moreover from zr FIXED_DT_range(4,6) have "0 \<le> z" "z < 1 / 2 ^ 4"
    by linarith+
  then have "expo z \<le> - int 4 - 1"
    by (intro expo_upper) simp_all
  ultimately have e: "expo z = 52 - int 57"
    by simp
  have grid: "\<exists>K'::int. fl z = of_int K' / 2 ^ 57"
    unfolding fl_at [OF e] by (rule exI) (rule refl)
  from zr(1) have "of_int 4803839602528529 / 2 ^ 57 \<le> z"
    by (simp add: FIXED_DT_value)
  with e have "of_int 4803839602528529 / 2 ^ 57 \<le> fl z"
    by (intro fl_ge_grid) simp_all
  then have lo: "2 * FIXED_DT \<le> fl z"
    by (simp add: FIXED_DT_value)
  from K have "real_of_int (2 * K - 4803839602528529) \<le> real_of_int 14411518807585585"
    by (simp only: of_int_le_iff)
  then have "z * 2 ^ 57 \<le> 14411518807585585 / 2"
    unfolding z by simp
  then have "round_even (z * 2 ^ 57) \<le> round_even (14411518807585585 / 2)"
    by (rule round_even_mono)
  also have "round_even (14411518807585585 / 2) = 7205759403792792"
    by (simp add: round_even_def)
  finally have "real_of_int (round_even (z * 2 ^ 57)) \<le> real_of_int 7205759403792792"
    by (simp only: of_int_le_iff)
  then have "fl z \<le> 7205759403792792 / 2 ^ 57"
    unfolding fl_at [OF e] by (simp add: divide_right_mono)
  then have "fl z < 3 * FIXED_DT"
    by (simp add: FIXED_DT_value)
  with lo grid show ?thesis
    by (simp only: z_def)
qed

lemma floor_quot:
  fixes c F :: real
  assumes "0 < F" "real k * F \<le> c" "c < (real k + 1) * F"
  shows "nat \<lfloor>c / F\<rfloor> = k"
proof -
  from assms(1,2) have "real k \<le> c / F"
    by (simp add: pos_le_divide_eq)
  then have "of_int (int k) \<le> c / F"
    by simp
  moreover from assms(1,3) have "c / F < real k + 1"
    by (simp add: pos_divide_less_eq)
  then have "c / F < of_int (int k) + 1"
    by simp
  ultimately have "\<lfloor>c / F\<rfloor> = int k"
    by (rule floor_unique)
  then show ?thesis
    by simp
qed

lemma step_loop_four:
  "step_loop (4 * FIXED_DT) calls
     = Some (1 / 2 ^ 57, calls @ [FIXED_DT, FIXED_DT, FIXED_DT, FIXED_DT])"
  by (simp add: step_loop_run)

lemma step_loop_count:
  assumes c: "0 \<le> c" "c \<le> 4 * FIXED_DT"
    and g58: "FIXED_DT \<le> c \<Longrightarrow> \<exists>K::int. c = of_int K / 2 ^ 58"
    and g57: "2 * FIXED_DT \<le> c \<Longrightarrow> \<exists>K::int. c = of_int K / 2 ^ 57"
  shows "\<exists>r. step_loop c calls = Some (r, calls @ replicate (nat \<lfloor>c / FIXED_DT\<rfloor>) FIXED_DT)"
proof -
  note F = FIXED_DT_range(6)
  have one: "\<exists>r. step_loop a cs = Some (r, cs @ [FIXED_DT])"
    if "\<exists>K::int. a = of_int K / 2 ^ 58" "FIXED_DT \<le> a" "a < 2 * FIXED_DT" for a cs
  proof -
    from that(1) obtain K :: int where K: "a = of_int K / 2 ^ 58" ..
    from that(3) have "a - FIXED_DT < FIXED_DT"
      by linarith
    then have "step_loop (a - FIXED_DT) (cs @ [FIXED_DT]) = Some (a - FIXED_DT, cs @ [FIXED_DT])"
      by (rule step_loop_stop)
    with step_loop_step [OF that(2), of cs] sub_1 [OF K that(2,3)] show ?thesis
      by simp
  qed
  have two: "\<exists>r. step_loop a cs = Some (r, cs @ [FIXED_DT, FIXED_DT])"
    if "\<exists>K::int. a = of_int K / 2 ^ 57" "2 * FIXED_DT \<le> a" "a < 3 * FIXED_DT" for a cs
  proof -
    from that(1) obtain K :: int where K: "a = of_int K / 2 ^ 57" ..
    from that(2) F have "FIXED_DT \<le> a"
      by linarith
    then have s: "step_loop a cs = step_loop (fl (a - FIXED_DT)) (cs @ [FIXED_DT])"
      by (rule step_loop_step)
    from sub_2 [OF K that(2,3)] one [of "fl (a - FIXED_DT)" "cs @ [FIXED_DT]"]
    obtain r where "step_loop (fl (a - FIXED_DT)) (cs @ [FIXED_DT]) = Some (r, (cs @ [FIXED_DT]) @ [FIXED_DT])"
      by blast
    with s show ?thesis
      by simp
  qed
  have three: "\<exists>r. step_loop a cs = Some (r, cs @ [FIXED_DT, FIXED_DT, FIXED_DT])"
    if "\<exists>K::int. a = of_int K / 2 ^ 57" "3 * FIXED_DT \<le> a" "a < 4 * FIXED_DT" for a cs
  proof -
    from that(1) obtain K :: int where K: "a = of_int K / 2 ^ 57" ..
    from that(2) F have "FIXED_DT \<le> a"
      by linarith
    then have s: "step_loop a cs = step_loop (fl (a - FIXED_DT)) (cs @ [FIXED_DT])"
      by (rule step_loop_step)
    from sub_3 [OF K that(2,3)] two [of "fl (a - FIXED_DT)" "cs @ [FIXED_DT]"]
    obtain r where "step_loop (fl (a - FIXED_DT)) (cs @ [FIXED_DT])
        = Some (r, (cs @ [FIXED_DT]) @ [FIXED_DT, FIXED_DT])"
      by blast
    with s show ?thesis
      by simp
  qed
  consider "c < FIXED_DT" | "FIXED_DT \<le> c" "c < 2 * FIXED_DT"
    | "2 * FIXED_DT \<le> c" "c < 3 * FIXED_DT" | "3 * FIXED_DT \<le> c" "c < 4 * FIXED_DT"
    | "c = 4 * FIXED_DT"
    using c(2) by linarith
  then show ?thesis
  proof cases
    case 1
    with c(1) F have "nat \<lfloor>c / FIXED_DT\<rfloor> = 0"
      by (intro floor_quot) simp_all
    with step_loop_stop [OF 1, of calls] show ?thesis
      by simp
  next
    case 2
    with F have "nat \<lfloor>c / FIXED_DT\<rfloor> = 1"
      by (intro floor_quot) simp_all
    with one [OF g58 [OF 2(1)] 2, of calls] show ?thesis
      by simp
  next
    case 3
    with F have "nat \<lfloor>c / FIXED_DT\<rfloor> = 2"
      by (intro floor_quot) simp_all
    with two [OF g57 [OF 3(1)] 3, of calls] show ?thesis
      by (simp add: numeral_2_eq_2)
  next
    case 4
    from 4(1) F have "2 * FIXED_DT \<le> c"
      by linarith
    note g = g57 [OF this]
    from 4 F have "nat \<lfloor>c / FIXED_DT\<rfloor> = 3"
      by (intro floor_quot) simp_all
    with three [OF g 4, of calls] show ?thesis
      by (simp add: numeral_3_eq_3)
  next
    case 5
    from F have n: "nat \<lfloor>4 * FIXED_DT / FIXED_DT\<rfloor> = 4"
      by simp
    have "replicate 4 FIXED_DT = [FIXED_DT, FIXED_DT, FIXED_DT, FIXED_DT]"
      by (simp add: numeral_eq_Suc)
    then show ?thesis
      unfolding 5 n by (simp only: step_loop_four) blast
  qed
qed

subsection \<open>One frame, and runs of frames\<close>

lemma dt_bounds:
  assumes "t \<le> now"
  shows "0 \<le> min (fl (fl (now - t) / 1000)) (fl 0.05)"
proof -
  from assms have "0 \<le> fl (now - t)"
    by (intro fl_nonneg) simp
  then have "0 \<le> fl (fl (now - t) / 1000)"
    by (intro fl_nonneg) simp
  moreover have "0 \<le> fl 0.05"
    by (intro fl_nonneg) simp
  ultimately show ?thesis
    by simp
qed

lemma floor_window:
  fixes c r F :: real and n :: nat
  assumes F: "0 < F" and r: "0 \<le> r" "r < F" and n: "n \<le> 15"
    and e: "\<bar>r - (c - real n * F)\<bar> \<le> real n / 2 ^ 56"
  shows "\<lfloor>(c - 15 / 2 ^ 56) / F\<rfloor> \<le> int n \<and> int n \<le> \<lfloor>(c + 15 / 2 ^ 56) / F\<rfloor>"
proof -
  from n have "real n \<le> 15"
    by simp
  then have ne: "real n / 2 ^ 56 \<le> 15 / 2 ^ 56"
    by (simp add: divide_right_mono)
  from e ne r have lo: "real n * F \<le> c + 15 / 2 ^ 56"
    by linarith
  from e ne r have "c - 15 / 2 ^ 56 < real n * F + F"
    by linarith
  then have hi: "c - 15 / 2 ^ 56 < (real n + 1) * F"
    by (simp add: algebra_simps)
  from lo F have "real n \<le> (c + 15 / 2 ^ 56) / F"
    by (simp add: pos_le_divide_eq)
  then have "real_of_int (int n) \<le> (c + 15 / 2 ^ 56) / F"
    by simp
  then have up: "int n \<le> \<lfloor>(c + 15 / 2 ^ 56) / F\<rfloor>"
    by (simp only: le_floor_iff)
  from hi F have "(c - 15 / 2 ^ 56) / F < real n + 1"
    by (simp add: pos_divide_less_eq)
  then have "(c - 15 / 2 ^ 56) / F < real_of_int (int n + 1)"
    by simp
  then have "\<lfloor>(c - 15 / 2 ^ 56) / F\<rfloor> < int n + 1"
    by (simp only: floor_less_iff)
  with up show ?thesis
    by simp
qed

lemma fl_grid_58:
  assumes "0 \<le> y" "FIXED_DT \<le> fl y"
  shows "\<exists>K::int. fl y = of_int K / 2 ^ 58"
proof (cases "y < 1 / 2 ^ 6")
  case True
  with assms(1) have "expo y \<le> - int 6 - 1"
    by (intro expo_upper) simp_all
  then have "expo y \<le> 52 - int 59"
    by simp
  moreover from True have "y \<le> of_int 9007199254740992 / 2 ^ 59"
    by simp
  ultimately have "fl y \<le> of_int 9007199254740992 / 2 ^ 59"
    by (rule fl_le_grid)
  then have "fl y < FIXED_DT"
    by (simp add: FIXED_DT_value)
  with assms(2) show ?thesis
    by simp
next
  case False
  then have "1 / 2 ^ 6 \<le> y"
    by simp
  then have "- int 6 \<le> expo y"
    by (rule expo_lower)
  then have "52 - int 58 \<le> expo y"
    by simp
  then show ?thesis
    by (rule fl_on_grid)
qed

lemma fl_grid_57:
  assumes "0 \<le> y" "2 * FIXED_DT \<le> fl y"
  shows "\<exists>K::int. fl y = of_int K / 2 ^ 57"
proof (cases "y < 1 / 2 ^ 5")
  case True
  with assms(1) have "expo y \<le> - int 5 - 1"
    by (intro expo_upper) simp_all
  then have "expo y \<le> 52 - int 58"
    by simp
  moreover from True have "y \<le> of_int 9007199254740992 / 2 ^ 58"
    by simp
  ultimately have "fl y \<le> of_int 9007199254740992 / 2 ^ 58"
    by (rule fl_le_grid)
  then have "fl y < 2 * FIXED_DT"
    by (simp add: FIXED_DT_value)
  with assms(2) show ?thesis
    by simp
next
  case False
  then have "1 / 2 ^ 5 \<le> y"
    by simp
  then have "- int 5 \<le> expo y"
    by (rule expo_lower)
  then have "52 - int 57 \<le> expo y"
    by simp
  then show ?thesis
    by (rule fl_on_grid)
qed

lemma fl_sum_le_four:
  assumes "0 \<le> y" "y < FIXED_DT + fl 0.05"
  shows "fl y \<le> 4 * FIXED_DT"
proof (cases "y < 1 / 2 ^ 4")
  case True
  with assms(1) have "expo y \<le> - int 4 - 1"
    by (intro expo_upper) simp_all
  then have "expo y \<le> 52 - int 57"
    by simp
  moreover from True have "y \<le> of_int 9007199254740992 / 2 ^ 57"
    by simp
  ultimately have "fl y \<le> of_int 9007199254740992 / 2 ^ 57"
    by (rule fl_le_grid)
  then show ?thesis
    by (simp add: FIXED_DT_value)
next
  case False
  then have "1 / 2 ^ 4 \<le> y"
    by simp
  then have "- int 4 \<le> expo y"
    by (rule expo_lower)
  moreover from assms(2) have y: "y < 19215358410114117 / 2 ^ 58"
    unfolding FIXED_DT_value fl_005_value by simp
  then have "y < 1 / 2 ^ 3"
    by simp
  with assms(1) have "expo y \<le> - int 3 - 1"
    by (intro expo_upper) simp_all
  ultimately have e: "expo y = 52 - int 56"
    by simp
  from y have "y * 2 ^ 56 \<le> 19215358410114117 / 4"
    by simp
  then have "round_even (y * 2 ^ 56) \<le> round_even (19215358410114117 / 4)"
    by (rule round_even_mono)
  also have "round_even (19215358410114117 / 4) = 4803839602528529"
    by (simp add: round_even_def)
  finally have "real_of_int (round_even (y * 2 ^ 56)) \<le> real_of_int 4803839602528529"
    by (simp only: of_int_le_iff)
  then have "fl y \<le> 4803839602528529 / 2 ^ 56"
    unfolding fl_at [OF e] by (simp add: divide_right_mono)
  then show ?thesis
    by (simp add: FIXED_DT_value)
qed

lemma replicate_same_length: "replicate n x = replicate k x \<Longrightarrow> n = k"
  using length_replicate [of n x] length_replicate [of k x] by simp

lemma tick_offline:
  assumes "0 \<le> accumulator s" "last_ts s \<le> now"
  shows "\<exists>n r.
     (let dt = min (fl (fl (now - last_ts s) / 1000)) (fl 0.05);
          capped = min (fl (accumulator s + dt)) MAX_ACCUM
      in tick now True s =
           Some (\<lparr>accumulator = r, last_ts = now\<rparr>,
                 \<lparr>step_calls = replicate n FIXED_DT, alpha_out = Some (fl (r / FIXED_DT))\<rparr>)
         \<and> 0 \<le> dt \<and> dt \<le> fl 0.05 \<and> 0 \<le> capped \<and> capped \<le> 0.25 \<and> n \<le> 15
         \<and> 0 \<le> r \<and> r < FIXED_DT
         \<and> \<bar>r - (capped - real n * FIXED_DT)\<bar> \<le> real n / 2 ^ 56
         \<and> \<lfloor>(capped - 15 / 2 ^ 56) / FIXED_DT\<rfloor> \<le> int n
         \<and> int n \<le> \<lfloor>(capped + 15 / 2 ^ 56) / FIXED_DT\<rfloor>
         \<and> (accumulator s < FIXED_DT
              \<longrightarrow> capped \<le> 4 * FIXED_DT \<and> int n = \<lfloor>capped / FIXED_DT\<rfloor>))"
proof -
  define dt where "dt = min (fl (fl (now - last_ts s) / 1000)) (fl 0.05)"
  define capped where "capped = min (fl (accumulator s + dt)) MAX_ACCUM"
  have dt0: "0 \<le> dt"
    unfolding dt_def using assms(2) by (rule dt_bounds)
  have dt1: "dt \<le> fl 0.05"
    by (simp add: dt_def)
  from assms(1) dt0 have "0 \<le> fl (accumulator s + dt)"
    by (intro fl_nonneg) simp
  then have c0: "0 \<le> capped"
    by (simp add: capped_def MAX_ACCUM_def)
  have c1: "capped \<le> 1 / 4"
    by (simp add: capped_def MAX_ACCUM_def)
  from step_loop_capped [OF c0 c1] obtain n r where
    nr: "step_loop capped [] = Some (r, replicate n FIXED_DT)" "n \<le> 15" "0 \<le> r" "r < FIXED_DT"
      "\<bar>r - (capped - real n * FIXED_DT)\<bar> \<le> real n / 2 ^ 56"
    by blast
  have Fpos: "0 < FIXED_DT"
    by (simp add: FIXED_DT_value)
  have t: "tick now True s =
      Some (\<lparr>accumulator = r, last_ts = now\<rparr>,
            \<lparr>step_calls = replicate n FIXED_DT, alpha_out = Some (fl (r / FIXED_DT))\<rparr>)"
    unfolding tick_def Let_def dt_def [symmetric] capped_def [symmetric] by (simp add: nr(1))
  have w: "\<lfloor>(capped - 15 / 2 ^ 56) / FIXED_DT\<rfloor> \<le> int n
         \<and> int n \<le> \<lfloor>(capped + 15 / 2 ^ 56) / FIXED_DT\<rfloor>"
    using Fpos nr(3,4,2,5) by (rule floor_window)
  have eq: "capped \<le> 4 * FIXED_DT \<and> int n = \<lfloor>capped / FIXED_DT\<rfloor>" if a: "accumulator s < FIXED_DT"
  proof -
    define y where "y = accumulator s + dt"
    from assms(1) dt0 have y0: "0 \<le> y"
      by (simp add: y_def)
    from a dt1 have "y < FIXED_DT + fl 0.05"
      by (simp add: y_def)
    with y0 have y4: "fl y \<le> 4 * FIXED_DT"
      by (rule fl_sum_le_four)
    then have "fl y \<le> 1 / 4"
      by (simp add: FIXED_DT_value)
    then have cy: "capped = fl y"
      by (simp add: capped_def y_def MAX_ACCUM_def)
    from step_loop_count [OF c0, of "[]"] y4 fl_grid_58 [OF y0] fl_grid_57 [OF y0]
    obtain r' where "step_loop capped [] = Some (r', replicate (nat \<lfloor>capped / FIXED_DT\<rfloor>) FIXED_DT)"
      unfolding cy by auto
    with nr(1) have "replicate n FIXED_DT = replicate (nat \<lfloor>capped / FIXED_DT\<rfloor>) FIXED_DT"
      by simp
    then have "n = nat \<lfloor>capped / FIXED_DT\<rfloor>"
      by (rule replicate_same_length)
    moreover from c0 Fpos have "0 \<le> \<lfloor>capped / FIXED_DT\<rfloor>"
      by simp
    ultimately have "int n = \<lfloor>capped / FIXED_DT\<rfloor>"
      by simp
    with y4 cy show ?thesis
      by simp
  qed
  from c1 have c1': "capped \<le> 0.25"
    by simp
  show ?thesis
    unfolding Let_def dt_def [symmetric] capped_def [symmetric]
    using t dt0 dt1 c0 c1' nr(2,3,4,5) w eq by blast
qed

lemma tick_state_after:
  assumes "0 \<le> accumulator s" "last_ts s \<le> now"
  shows "\<exists>s' out. tick now offline s = Some (s', out) \<and> 0 \<le> accumulator s'
           \<and> accumulator s' < FIXED_DT \<and> last_ts s' = now"
proof (cases offline)
  case False
  then show ?thesis
    by (simp add: tick_def FIXED_DT_value)
next
  case True
  from tick_offline [OF assms] obtain n r where
    "tick now True s =
       Some (\<lparr>accumulator = r, last_ts = now\<rparr>,
             \<lparr>step_calls = replicate n FIXED_DT, alpha_out = Some (fl (r / FIXED_DT))\<rparr>)"
    "0 \<le> r" "r < FIXED_DT"
    unfolding Let_def by blast
  with True show ?thesis
    by simp
qed

lemma run_ticks_inv:
  "chronological (last_ts s) (map fst fs @ [now]) \<Longrightarrow> 0 \<le> accumulator s \<Longrightarrow>
   \<exists>s'. run_ticks fs s = Some s' \<and> 0 \<le> accumulator s' \<and> last_ts s' \<le> now
        \<and> (accumulator s < FIXED_DT \<or> fs \<noteq> [] \<longrightarrow> accumulator s' < FIXED_DT)"
proof (induction fs arbitrary: s)
  case Nil
  then show ?case by simp
next
  case (Cons f fs)
  obtain t offline where f: "f = (t, offline)"
    by (cases f) auto
  from Cons.prems have le: "last_ts s \<le> t" and ch: "chronological t (map fst fs @ [now])"
    by (simp_all add: f)
  from tick_state_after [OF Cons.prems(2) le, of offline] obtain s1 out where
    s1: "tick t offline s = Some (s1, out)" "0 \<le> accumulator s1" "accumulator s1 < FIXED_DT"
      "last_ts s1 = t"
    by blast
  from ch s1(4) have "chronological (last_ts s1) (map fst fs @ [now])"
    by simp
  from Cons.IH [OF this s1(2)] s1(3) show ?case
    unfolding f by (simp add: s1(1))
qed

subsection \<open>Frames evaluated\<close>

text \<open>
  A frame that starts from the accumulator 0.5, one second after the last: the sum is capped
  to 0.25 and the loop makes 15 steps.  The run of frames every 15 ms: by the frame at 135
  ms the accumulator is 0.0016666666666666635; the frame at 150 ms adds 0.015, the sum is
  0.016666666666666663, one unit in the last place below \<open>FIXED_DT\<close>, and the loop makes
  no step.
\<close>

lemma replicate_numeral_unfold:
  "replicate (numeral k) x = x # replicate (pred_numeral k) x"
  by (simp add: numeral_eq_Suc)

lemmas tick_run = tick_def MAX_ACCUM_def step_loop_run replicate_numeral_unfold

lemma frames_15ms_run:
  "run_ticks frames_15ms (tick_init 0) = Some \<lparr>accumulator = 120095990063213 / 2 ^ 56, last_ts = 135\<rparr>"
  by (simp add: frames_15ms_def tick_init_def tick_run)

lemma frames_15ms_tick:
  "tick 150 True \<lparr>accumulator = 120095990063213 / 2 ^ 56, last_ts = 135\<rparr>
     = Some (\<lparr>accumulator = 300239975158033 / 2 ^ 54, last_ts = 150\<rparr>,
             \<lparr>step_calls = [], alpha_out = Some (4503599627370495 / 2 ^ 52)\<rparr>)"
  by (simp add: tick_run)

lemma capped_tick:
  "tick 1000 True \<lparr>accumulator = 1 / 2, last_ts = 0\<rparr>
     = Some (\<lparr>accumulator = 7 / 2 ^ 57, last_ts = 1000\<rparr>,
             \<lparr>step_calls = replicate 15 FIXED_DT, alpha_out = Some (105 / 2 ^ 55)\<rparr>)"
  by (simp add: tick_run)

lemma capped_value:
  "min (fl (1 / 2 + min (fl (fl (1000 - 0) / 1000)) (fl 0.05))) MAX_ACCUM = 0.25"
  by (simp add: tick_run)

lemma frames_15ms_floor:
  "\<lfloor>min (fl (120095990063213 / 2 ^ 56 + min (fl (fl (150 - 135) / 1000)) (fl 0.05))) MAX_ACCUM
      / FIXED_DT\<rfloor> = 0"
  by (simp add: tick_run)

subsection \<open>The claim\<close>

text \<open>
  C1.  Take any accumulator that is not negative, any run of frames whose timestamps do not
  run backwards, in any mix of modes, and then a frame in offline mode, all in double
  arithmetic.  Every frame of the run returns.  With \<open>dt\<close> the frame's delta clamped to 50 ms
  and \<open>capped = min (accumulator + dt) MAX_ACCUM\<close>, which is at most 0.25 whatever the
  accumulator was, the frame's loop ends after \<open>n\<close> calls of \<open>stepPhysics\<close>, at most 15, every
  call with \<open>dt = FIXED_DT\<close>, the double of \<open>1 / 60\<close>; the accumulator left over satisfies
  \<open>0 \<le> accumulator < FIXED_DT\<close> and the frame's alpha is \<open>accumulator / FIXED_DT\<close>.  After any
  frame, and at the start of the program, the accumulator is below \<open>FIXED_DT\<close>; from such an
  accumulator \<open>capped\<close> is at most \<open>4 * FIXED_DT\<close> and \<open>n\<close> is exactly
  \<open>floor (capped / FIXED_DT)\<close>, the floor of the quotient of the two doubles.  From any other
  accumulator, which no run of the program reaches, the accumulator left over is
  \<open>capped - n * FIXED_DT\<close> up to the rounding of the \<open>n\<close> subtractions, each at most
  \<open>2^-56\<close>, and \<open>n\<close> lies between \<open>floor ((capped - 15 * 2^-56) / FIXED_DT)\<close> and
  \<open>floor ((capped + 15 * 2^-56) / FIXED_DT)\<close>.
\<close>

theorem tick_fixed_steps_double:
  assumes "0 \<le> accumulator s0" and "chronological (last_ts s0) (map fst fs @ [now])"
  shows "\<exists>s n r.
     run_ticks fs s0 = Some s
     \<and> (accumulator s0 < FIXED_DT \<or> fs \<noteq> [] \<longrightarrow> accumulator s < FIXED_DT)
     \<and> (let dt = min (fl (fl (now - last_ts s) / 1000)) (fl 0.05);
             capped = min (fl (accumulator s + dt)) MAX_ACCUM
         in tick now True s =
              Some (\<lparr>accumulator = r, last_ts = now\<rparr>,
                    \<lparr>step_calls = replicate n FIXED_DT, alpha_out = Some (fl (r / FIXED_DT))\<rparr>)
            \<and> 0 \<le> dt \<and> dt \<le> fl 0.05 \<and> 0 \<le> capped \<and> capped \<le> 0.25 \<and> n \<le> 15
            \<and> 0 \<le> r \<and> r < FIXED_DT
            \<and> \<bar>r - (capped - real n * FIXED_DT)\<bar> \<le> real n / 2 ^ 56
            \<and> \<lfloor>(capped - 15 / 2 ^ 56) / FIXED_DT\<rfloor> \<le> int n
            \<and> int n \<le> \<lfloor>(capped + 15 / 2 ^ 56) / FIXED_DT\<rfloor>
            \<and> (accumulator s < FIXED_DT
                 \<longrightarrow> capped \<le> 4 * FIXED_DT \<and> int n = \<lfloor>capped / FIXED_DT\<rfloor>))
     \<and> FIXED_DT = 4803839602528529 / 2 ^ 58
     \<and> fl 0.05 = 3602879701896397 / 2 ^ 56"
proof -
  from run_ticks_inv [OF assms(2,1)] obtain s where
    s: "run_ticks fs s0 = Some s" "0 \<le> accumulator s" "last_ts s \<le> now"
      "accumulator s0 < FIXED_DT \<or> fs \<noteq> [] \<longrightarrow> accumulator s < FIXED_DT"
    by blast
  from tick_offline [OF s(2,3)] s(1,4) FIXED_DT_value fl_005_value show ?thesis
    by blast
qed


theorem tick_fixed_steps_double_witness:
  "tick 1000 True \<lparr>accumulator = 1 / 2, last_ts = 0\<rparr>
     = Some (\<lparr>accumulator = 7 / 2 ^ 57, last_ts = 1000\<rparr>,
             \<lparr>step_calls = replicate 15 FIXED_DT, alpha_out = Some (105 / 2 ^ 55)\<rparr>)
   \<and> min (fl (1 / 2 + min (fl (fl (1000 - 0) / 1000)) (fl 0.05))) MAX_ACCUM = 0.25
   \<and> 7 / 2 ^ 57 < FIXED_DT
   \<and> run_ticks frames_15ms (tick_init 0)
       = Some \<lparr>accumulator = 120095990063213 / 2 ^ 56, last_ts = 135\<rparr>
   \<and> 120095990063213 / 2 ^ 56 < FIXED_DT
   \<and> tick 150 True \<lparr>accumulator = 120095990063213 / 2 ^ 56, last_ts = 135\<rparr>
       = Some (\<lparr>accumulator = 300239975158033 / 2 ^ 54, last_ts = 150\<rparr>,
               \<lparr>step_calls = [], alpha_out = Some (4503599627370495 / 2 ^ 52)\<rparr>)
   \<and> 300239975158033 / 2 ^ 54 < FIXED_DT
   \<and> \<lfloor>min (fl (120095990063213 / 2 ^ 56 + min (fl (fl (150 - 135) / 1000)) (fl 0.05))) MAX_ACCUM
         / FIXED_DT\<rfloor> = 0"
proof -
  have h1: "0 \<le> accumulator \<lparr>accumulator = 1 / 2, last_ts = 0\<rparr>"
    by simp
  have h2: "chronological (last_ts \<lparr>accumulator = 1 / 2, last_ts = 0\<rparr>) (map fst [] @ [1000])"
    by simp
  from tick_fixed_steps_double [OF h1 h2] obtain n r where
    a: "tick 1000 True \<lparr>accumulator = 1 / 2, last_ts = 0\<rparr> =
          Some (\<lparr>accumulator = r, last_ts = 1000\<rparr>,
                \<lparr>step_calls = replicate n FIXED_DT, alpha_out = Some (fl (r / FIXED_DT))\<rparr>)"
      and b: "r < FIXED_DT"
    unfolding Let_def by auto
  have "accumulator (fst (the (tick 1000 True \<lparr>accumulator = 1 / 2, last_ts = 0\<rparr>))) = r"
    by (simp only: a option.sel fst_conv tick_state.select_convs)
  moreover have "accumulator (fst (the (tick 1000 True \<lparr>accumulator = 1 / 2, last_ts = 0\<rparr>)))
      = 7 / 2 ^ 57"
    by (simp only: capped_tick option.sel fst_conv tick_state.select_convs)
  ultimately have r: "r = 7 / 2 ^ 57"
    by (rule trans [OF sym])
  have g1: "0 \<le> accumulator (tick_init 0)"
    by (simp add: tick_init_def)
  have g2: "chronological (last_ts (tick_init 0)) (map fst frames_15ms @ [150])"
    by (simp add: tick_init_def frames_15ms_def)
  have g3: "frames_15ms \<noteq> []"
    by (simp add: frames_15ms_def)
  from tick_fixed_steps_double [OF g1 g2] g3 obtain s n' r' where
    c: "run_ticks frames_15ms (tick_init 0) = Some s"
      and c': "accumulator s < FIXED_DT"
      and d: "tick 150 True s =
          Some (\<lparr>accumulator = r', last_ts = 150\<rparr>,
                \<lparr>step_calls = replicate n' FIXED_DT, alpha_out = Some (fl (r' / FIXED_DT))\<rparr>)"
      and e: "r' < FIXED_DT"
    unfolding Let_def by auto
  from c have s: "s = \<lparr>accumulator = 120095990063213 / 2 ^ 56, last_ts = 135\<rparr>"
    by (simp only: frames_15ms_run option.inject)
  from c' have c'': "120095990063213 / 2 ^ 56 < FIXED_DT"
    unfolding s by (simp only: tick_state.select_convs)
  have "accumulator (fst (the (tick 150 True s))) = r'"
    by (simp only: d option.sel fst_conv tick_state.select_convs)
  moreover have "accumulator (fst (the (tick 150 True s))) = 300239975158033 / 2 ^ 54"
    unfolding s by (simp only: frames_15ms_tick option.sel fst_conv tick_state.select_convs)
  ultimately have r': "r' = 300239975158033 / 2 ^ 54"
    by (rule trans [OF sym])
  from b e c'' show ?thesis
    unfolding r r'
    by (simp only: capped_tick capped_value frames_15ms_run frames_15ms_tick frames_15ms_floor
        simp_thms)
qed

subsection \<open>The count and other floors\<close>

text \<open>
  The floor above is that of the exact quotient of the two doubles.  On a first frame
  49.99999999999999 ms after the start \<open>capped\<close> is 0.049999999999999996, the double just
  below 0.05, and the loop makes 2 steps; the exact quotient \<open>capped / FIXED_DT\<close> lies just
  below 3, but divided in double arithmetic, as \<open>alpha\<close> is, it is rounded to 3.
\<close>

lemma tick_rounded_quotient:
  "tick (7036874417766399 / 2 ^ 47) True (tick_init 0)
     = Some (\<lparr>accumulator = 4803839602528527 / 2 ^ 58, last_ts = 7036874417766399 / 2 ^ 47\<rparr>,
             \<lparr>step_calls = [FIXED_DT, FIXED_DT], alpha_out = Some (2251799813685247 / 2 ^ 51)\<rparr>)
   \<and> min (fl (0 + min (fl (fl (7036874417766399 / 2 ^ 47 - 0) / 1000)) (fl 0.05))) MAX_ACCUM
       = 7205759403792793 / 2 ^ 57
   \<and> \<lfloor>(7205759403792793 / 2 ^ 57) / FIXED_DT\<rfloor> = 2
   \<and> \<lfloor>fl ((7205759403792793 / 2 ^ 57) / FIXED_DT)\<rfloor> = 3"
  by (simp add: tick_init_def tick_run)

text \<open>
  An accumulator of \<open>FIXED_DT\<close> or more is not reached by any run, and from one the loop may
  leave the floor: a frame that starts at 0.11666666666666665 with no time elapsed makes 7
  steps, the subtractions being rounded upwards, while the quotient's floor is 6.
\<close>

lemma tick_large_accumulator:
  "tick 0 True \<lparr>accumulator = 8406719304424925 / 2 ^ 56, last_ts = 0\<rparr>
     = Some (\<lparr>accumulator = 1 / 2 ^ 57, last_ts = 0\<rparr>,
             \<lparr>step_calls = replicate 7 FIXED_DT, alpha_out = Some (15 / 2 ^ 55)\<rparr>)
   \<and> min (fl (8406719304424925 / 2 ^ 56 + min (fl (fl (0 - 0) / 1000)) (fl 0.05))) MAX_ACCUM
       = 8406719304424925 / 2 ^ 56
   \<and> \<lfloor>(8406719304424925 / 2 ^ 56) / FIXED_DT\<rfloor> = 6"
  by (simp add: tick_run)

section \<open>Client replica: entity states and their interpolation (game.js)\<close>

text \<open>
  An entity record of a snapshot: \<open>{id, p, q, lv, av}\<close>.  The arrays are lists of numbers;
  an array that is missing is the empty list, which the code treats alike (every read is
  of the form \<open>v[i] || d\<close>).
\<close>

record entity_state =
  st_id :: string
  st_p :: "real list"
  st_q :: "real list"
  st_lv :: "real list"
  st_av :: "real list"

text \<open>\<open>v[i] || d\<close>: the default \<open>d\<close> replaces a missing element and also a zero.\<close>

definition idx_or :: "real list \<Rightarrow> nat \<Rightarrow> real \<Rightarrow> real" where
  "idx_or v i d = (if i < length v \<and> v ! i \<noteq> 0 then v ! i else d)"

text \<open>
  Modelled from the spec: \<open>THREE.MathUtils.lerp\<close> and \<open>THREE.MathUtils.clamp\<close> belong to
  the three.js library, which is not part of the repository's sources.  Positions are
  ``linearly interpolated component-wise'' and alpha is ``clamp(..., 0, 1)''; three.js
  computes them as \<open>(1 - t) * x + t * y\<close> and \<open>max(min, min(max, value))\<close> (the latter is
  also the body of the repository's own \<open>clamp\<close>).
\<close>

definition lerp :: "real \<Rightarrow> real \<Rightarrow> real \<Rightarrow> real" where
  "lerp x y t = (1 - t) * x + t * y"

definition clamp :: "real \<Rightarrow> real \<Rightarrow> real \<Rightarrow> real" where
  "clamp v a b = max a (min b v)"

definition lerpVec :: "real \<Rightarrow> real list \<Rightarrow> real list \<Rightarrow> real list" where
  "lerpVec alpha va vb =
     [lerp (idx_or va 0 0) (idx_or vb 0 0) alpha,
      lerp (idx_or va 1 0) (idx_or vb 1 0) alpha,
      lerp (idx_or va 2 0) (idx_or vb 2 0) alpha]"

definition quat_of_array :: "real list \<Rightarrow> quat" where
  "quat_of_array q = Quat (idx_or q 0 0) (idx_or q 1 0) (idx_or q 2 0) (idx_or q 3 1)"

text \<open>
  \<open>interpolateState(a, b, alpha)\<close>.  The spherical interpolation \<open>qa.clone().slerp(qb, alpha)\<close>
  is three.js code; it is the parameter \<open>slerp\<close> of the model.
\<close>

definition interpolateState ::
  "(quat \<Rightarrow> quat \<Rightarrow> real \<Rightarrow> quat) \<Rightarrow> entity_state option \<Rightarrow> entity_state option \<Rightarrow> real
     \<Rightarrow> entity_state option" where
  "interpolateState slerp a b alpha =
     (case b of
        None \<Rightarrow> a
      | Some sb \<Rightarrow>
         (case a of
            None \<Rightarrow> b
          | Some sa \<Rightarrow>
              (let qa = quat_of_array (st_q sa);
                   qb = quat_of_array (st_q sb);
                   qi = slerp qa qb alpha
               in Some \<lparr>st_id = (if st_id sa \<noteq> [] then st_id sa else st_id sb),
                        st_p = lerpVec alpha (st_p sa) (st_p sb),
                        st_q = [qx qi, qy qi, qz qi, qw qi],
                        st_lv = lerpVec alpha (st_lv sa) (st_lv sb),
                        st_av = lerpVec alpha (st_av sa) (st_av sb)\<rparr>)))"

text \<open>The position array of the interpolated state of two present entities.\<close>

definition interpolated_p ::
  "(quat \<Rightarrow> quat \<Rightarrow> real \<Rightarrow> quat) \<Rightarrow> entity_state \<Rightarrow> entity_state \<Rightarrow> real \<Rightarrow> real list" where
  "interpolated_p slerp sa sb alpha =
     (case interpolateState slerp (Some sa) (Some sb) alpha of
        None \<Rightarrow> []
      | Some r \<Rightarrow> st_p r)"

lemma idx_or_zero: "i < length v \<Longrightarrow> idx_or v i 0 = v ! i"
  by (simp add: idx_or_def)

lemma list3_eq:
  assumes "length v = 3"
  shows "[v ! 0, v ! Suc 0, v ! 2] = v"
proof -
  from assms obtain a b c where "v = [a, b, c]"
    by (cases v; cases "tl v"; cases "tl (tl v)") auto
  then show ?thesis by simp
qed

lemma lerp_0: "lerp x y 0 = x"
  by (simp add: lerp_def)

lemma lerp_1: "lerp x y 1 = y"
  by (simp add: lerp_def)

lemma lerp_between:
  assumes "0 \<le> t" "t \<le> 1"
  shows "min x y \<le> lerp x y t \<and> lerp x y t \<le> max x y"
proof -
  have eq: "lerp x y t = x + t * (y - x)"
    by (simp add: lerp_def algebra_simps)
  show ?thesis
  proof (cases "x \<le> y")
    case True
    then have a: "0 \<le> t * (y - x)"
      using assms by simp
    from True have "t * (y - x) \<le> 1 * (y - x)"
      using assms by (intro mult_right_mono) simp_all
    then have b: "t * (y - x) \<le> y - x"
      by simp
    from a b True show ?thesis
      unfolding eq by linarith
  next
    case False
    then have a: "t * (y - x) \<le> 0"
      using assms by (simp add: mult_nonneg_nonpos)
    from False have "1 * (y - x) \<le> t * (y - x)"
      using assms by (intro mult_right_mono_neg) simp_all
    then have b: "y - x \<le> t * (y - x)"
      by simp
    from a b False show ?thesis
      unfolding eq by linarith
  qed
qed

lemma lerp_mono:
  assumes "t \<le> u"
  shows "(x \<le> y \<longrightarrow> lerp x y t \<le> lerp x y u) \<and> (y \<le> x \<longrightarrow> lerp x y u \<le> lerp x y t)"
proof -
  have eq: "lerp x y u - lerp x y t = (u - t) * (y - x)"
    by (simp add: lerp_def algebra_simps)
  have "x \<le> y \<Longrightarrow> 0 \<le> (u - t) * (y - x)"
    using assms by simp
  moreover have "y \<le> x \<Longrightarrow> (u - t) * (y - x) \<le> 0"
    using assms by (simp add: mult_nonneg_nonpos)
  ultimately show ?thesis
    using eq by linarith
qed

lemma interpolated_p_nth:
  assumes "length (st_p sa) = 3" "length (st_p sb) = 3" "i < 3"
  shows "interpolated_p slerp sa sb alpha ! i = lerp (st_p sa ! i) (st_p sb ! i) alpha"
proof -
  from assms(3) consider "i = 0" | "i = 1" | "i = 2"
    by linarith
  then show ?thesis
    using assms(1,2)
    by cases (simp_all add: interpolated_p_def interpolateState_def Let_def lerpVec_def idx_or_zero)
qed

text \<open>
  C7.  For two entity states that are both present and carry three position components:
  at alpha = 0 the interpolated position is exactly that of A, at alpha = 1 exactly that
  of B; for alpha in [0,1] every component lies between the components of A and B; and
  for alpha \<le> alpha' the component does not decrease when B's component is at least
  A's, and does not increase when it is at most A's.
\<close>

theorem interpolateState_position:
  assumes "length (st_p sa) = 3" and "length (st_p sb) = 3"
  shows "interpolated_p slerp sa sb 0 = st_p sa
    \<and> interpolated_p slerp sa sb 1 = st_p sb
    \<and> (\<forall>i alpha. i < 3 \<and> 0 \<le> alpha \<and> alpha \<le> 1 \<longrightarrow>
          min (st_p sa ! i) (st_p sb ! i) \<le> interpolated_p slerp sa sb alpha ! i
          \<and> interpolated_p slerp sa sb alpha ! i \<le> max (st_p sa ! i) (st_p sb ! i))
    \<and> (\<forall>i alpha alpha'. i < 3 \<and> alpha \<le> alpha' \<longrightarrow>
          (st_p sa ! i \<le> st_p sb ! i \<longrightarrow>
             interpolated_p slerp sa sb alpha ! i \<le> interpolated_p slerp sa sb alpha' ! i)
          \<and> (st_p sb ! i \<le> st_p sa ! i \<longrightarrow>
             interpolated_p slerp sa sb alpha' ! i \<le> interpolated_p slerp sa sb alpha ! i))
    \<and> (\<forall>alpha. \<exists>r. interpolateState slerp (Some sa) (Some sb) alpha = Some r
          \<and> st_p r = interpolated_p slerp sa sb alpha)"
proof -
  have p0: "interpolated_p slerp sa sb 0 = st_p sa"
    using assms
    by (simp add: interpolated_p_def interpolateState_def Let_def lerpVec_def idx_or_zero lerp_0
        list3_eq)
  have p1: "interpolated_p slerp sa sb 1 = st_p sb"
    using assms
    by (simp add: interpolated_p_def interpolateState_def Let_def lerpVec_def idx_or_zero lerp_1
        list3_eq)
  have between: "min (st_p sa ! i) (st_p sb ! i) \<le> interpolated_p slerp sa sb alpha ! i
      \<and> interpolated_p slerp sa sb alpha ! i \<le> max (st_p sa ! i) (st_p sb ! i)"
    if "i < 3" "0 \<le> alpha" "alpha \<le> 1" for i alpha
    using lerp_between [OF that(2,3), of "st_p sa ! i" "st_p sb ! i"]
    by (simp only: interpolated_p_nth [OF assms that(1)])
  have mono: "(st_p sa ! i \<le> st_p sb ! i \<longrightarrow>
             interpolated_p slerp sa sb alpha ! i \<le> interpolated_p slerp sa sb alpha' ! i)
          \<and> (st_p sb ! i \<le> st_p sa ! i \<longrightarrow>
             interpolated_p slerp sa sb alpha' ! i \<le> interpolated_p slerp sa sb alpha ! i)"
    if "i < 3" "alpha \<le> alpha'" for i alpha alpha'
    using lerp_mono [OF that(2), of "st_p sa ! i" "st_p sb ! i"]
    by (simp only: interpolated_p_nth [OF assms that(1)])
  have ex: "\<exists>r. interpolateState slerp (Some sa) (Some sb) alpha = Some r
          \<and> st_p r = interpolated_p slerp sa sb alpha" for alpha
    by (simp add: interpolated_p_def interpolateState_def Let_def)
  from p0 p1 between mono ex show ?thesis
    by blast
qed

definition demo_a :: entity_state where
  "demo_a = \<lparr>st_id = ''car'', st_p = [1, 0.6, - 4], st_q = [0, 0, 0, 1],
              st_lv = [2, 0, 0], st_av = [0, 0, 0]\<rparr>"

definition demo_b :: entity_state where
  "demo_b = \<lparr>st_id = ''car'', st_p = [3, 0.6, - 8], st_q = [0, 1, 0, 0],
              st_lv = [0, 0, 0], st_av = [0, 1, 0]\<rparr>"

theorem interpolateState_position_witness:
  "interpolated_p (\<lambda>qa qb t. qa) demo_a demo_b 0 = [1, 0.6, - 4]
   \<and> interpolated_p (\<lambda>qa qb t. qa) demo_a demo_b 1 = [3, 0.6, - 8]
   \<and> interpolated_p (\<lambda>qa qb t. qa) demo_a demo_b (1 / 4) ! 2 = - 5
   \<and> - 8 \<le> interpolated_p (\<lambda>qa qb t. qa) demo_a demo_b (1 / 4) ! 2
   \<and> interpolated_p (\<lambda>qa qb t. qa) demo_a demo_b (1 / 2) ! 2
       \<le> interpolated_p (\<lambda>qa qb t. qa) demo_a demo_b (1 / 4) ! 2"
proof -
  have len: "length (st_p demo_a) = 3" "length (st_p demo_b) = 3"
    by (simp_all add: demo_a_def demo_b_def)
  note th = interpolateState_position [OF len, of "\<lambda>qa qb t. qa"]
  have v: "interpolated_p (\<lambda>qa qb t. qa) demo_a demo_b (1 / 4) ! 2 = - 5"
    by (simp add: interpolated_p_def interpolateState_def Let_def lerpVec_def lerp_def idx_or_def
        demo_a_def demo_b_def)
  from th have "interpolated_p (\<lambda>qa qb t. qa) demo_a demo_b 0 = st_p demo_a"
    "interpolated_p (\<lambda>qa qb t. qa) demo_a demo_b 1 = st_p demo_b"
    by blast+
  moreover from th have "(2::nat) < 3 \<and> (0::real) \<le> 1 / 4 \<and> (1 / 4 :: real) \<le> 1 \<longrightarrow>
      min (st_p demo_a ! 2) (st_p demo_b ! 2) \<le> interpolated_p (\<lambda>qa qb t. qa) demo_a demo_b (1 / 4) ! 2"
    by blast
  moreover from th have "(2::nat) < 3 \<and> (1 / 4 :: real) \<le> 1 / 2 \<longrightarrow>
      (st_p demo_b ! 2 \<le> st_p demo_a ! 2 \<longrightarrow>
        interpolated_p (\<lambda>qa qb t. qa) demo_a demo_b (1 / 2) ! 2
          \<le> interpolated_p (\<lambda>qa qb t. qa) demo_a demo_b (1 / 4) ! 2)"
    by blast
  ultimately show ?thesis
    using v by (simp add: demo_a_def demo_b_def)
qed

section \<open>Client replica: the snapshot buffer (game.js)\<close>

text \<open>
  A \<open>snapshot\<close> message as the client keeps it: \<open>{tick, serverTime, players, props}\<close> plus
  the \<open>receivedAt\<close> stamp the client adds.  A missing \<open>serverTime\<close> is \<open>None\<close>; missing
  \<open>players\<close> or \<open>props\<close> are empty lists (the code reads them as \<open>prev.players || []\<close>).
\<close>

record snapshot =
  snap_tick :: int
  serverTime :: "real option"
  players :: "entity_state list"
  props :: "entity_state list"
  receivedAt :: real

datatype net_mode = Offline | Online

text \<open>The fields of the \<open>NETWORK\<close> object that the buffer code reads or writes.\<close>

record network =
  net_id :: "string option"
  mode :: net_mode
  snapshotBuffer :: "snapshot list"
  snapshotDelay :: real
  tickRate :: real
  snapshotRate :: real
  serverTimeOffset :: real

definition network_init :: network where
  "network_init = \<lparr>net_id = None, mode = Offline, snapshotBuffer = [], snapshotDelay = 0.12,
                     tickRate = 60, snapshotRate = 20, serverTimeOffset = 0\<rparr>"

text \<open>\<open>x || d\<close> for a number that may be missing: missing and zero give \<open>d\<close>.\<close>

definition num_or :: "real option \<Rightarrow> real \<Rightarrow> real" where
  "num_or v d = (case v of None \<Rightarrow> d | Some r \<Rightarrow> if r = 0 then d else r)"

text \<open>The sort key \<open>a.serverTime || 0\<close> of both \<open>sort\<close> calls.\<close>

definition sort_time :: "snapshot \<Rightarrow> real" where
  "sort_time s = num_or (serverTime s) 0"

definition snapshotClientTime :: "network \<Rightarrow> snapshot \<Rightarrow> real" where
  "snapshotClientTime n snap = num_or (serverTime snap) 0 + serverTimeOffset n"

text \<open>
  The messages of the host as \<open>handleMessage\<close> tells them apart after \<open>JSON.parse\<close>;
  \<open>Unparsed\<close> is a frame that fails to parse, \<open>OtherMessage\<close> any other value.
\<close>

datatype host_message =
    Welcome string "real option" "real option" "real option"
  | Snapshot snapshot
  | PlayerLeft string
  | PlayerJoined string
  | OtherMessage
  | Unparsed

text \<open>
  \<open>handleMessage(evt)\<close>, restricted to the \<open>NETWORK\<close> object (the scene objects it creates
  and removes are outside the model).  \<open>perf_now\<close> is \<open>performance.now()\<close>, \<open>date_now\<close> is
  \<open>Date.now()\<close>.  \<open>Array.prototype.sort\<close> is stable, as \<open>sort_key\<close> is.
\<close>

definition handleMessage :: "real \<Rightarrow> real \<Rightarrow> host_message \<Rightarrow> network \<Rightarrow> network" where
  "handleMessage perf_now date_now msg n =
     (case msg of
        Welcome i tr sr st \<Rightarrow>
          n\<lparr>net_id := Some i,
            tickRate := num_or tr (tickRate n),
            snapshotRate := num_or sr (snapshotRate n),
            serverTimeOffset := perf_now - num_or st date_now,
            mode := Online,
            snapshotBuffer := []\<rparr>
      | Snapshot data \<Rightarrow>
          (let snap = data\<lparr>receivedAt := perf_now\<rparr>;
               pushed = snapshotBuffer n @ [snap];
               sorted_buf = sort_key sort_time pushed
           in n\<lparr>snapshotBuffer :=
                  (if length sorted_buf > 90 then tl sorted_buf else sorted_buf)\<rparr>)
      | _ \<Rightarrow> n)"

text \<open>\<open>ensureOfflineWorld\<close>, restricted to the \<open>NETWORK\<close> object.\<close>

definition ensureOfflineWorld :: "network \<Rightarrow> network" where
  "ensureOfflineWorld n = n\<lparr>mode := Offline, snapshotBuffer := []\<rparr>"

text \<open>
  The loop \<open>while (buffer.length > 2 && snapshotClientTime(buffer[1]) <= renderTime) buffer.shift()\<close>.
\<close>

function prune_loop :: "network \<Rightarrow> real \<Rightarrow> snapshot list \<Rightarrow> snapshot list" where
  "prune_loop n renderTime buf =
     (if length buf > 2 \<and> snapshotClientTime n (buf ! 1) \<le> renderTime
      then prune_loop n renderTime (tl buf)
      else buf)"
  by pat_completeness auto
termination
  by (relation "measure (\<lambda>(n, renderTime, buf). length buf)") auto

declare prune_loop.simps [simp del]

text \<open>A JavaScript \<open>Map\<close> built from \<open>list.map((p) => [p.id, p])\<close>: the last entry of an id wins.\<close>

definition by_id :: "entity_state list \<Rightarrow> string \<Rightarrow> entity_state option" where
  "by_id es = map_of (rev (map (\<lambda>e. (st_id e, e)) es))"

text \<open>
  What \<open>applySnapshotInterpolation\<close> works out: the pair of snapshots, alpha, and for every
  id the state handed to \<open>applyInterpolatedPlayer\<close> or stored in \<open>propStates\<close> (none for an
  id in neither snapshot).
\<close>

record interpolation =
  i_prev :: snapshot
  i_next :: snapshot
  i_alpha :: real
  player_states :: "string \<Rightarrow> entity_state option"
  prop_states :: "string \<Rightarrow> entity_state option"

definition applySnapshotInterpolation ::
  "(quat \<Rightarrow> quat \<Rightarrow> real \<Rightarrow> quat) \<Rightarrow> real \<Rightarrow> network \<Rightarrow> network \<times> interpolation option" where
  "applySnapshotInterpolation slerp perf_now n =
     (if snapshotBuffer n = [] then (n, None)
      else
        (let sorted_buf = sort_key sort_time (snapshotBuffer n);
             renderTime = perf_now - snapshotDelay n * 1000;
             buf = prune_loop n renderTime sorted_buf;
             prev = buf ! 0;
             nxt = (case find (\<lambda>s. snapshotClientTime n s \<ge> renderTime) buf of
                       Some s \<Rightarrow> s
                     | None \<Rightarrow> buf ! (length buf - 1));
             prevTime = snapshotClientTime n prev;
             nextTime = snapshotClientTime n nxt;
             span = max 1 (nextTime - prevTime);
             alpha = clamp ((renderTime - prevTime) / span) 0 1
         in (n\<lparr>snapshotBuffer := buf\<rparr>,
             Some \<lparr>i_prev = prev, i_next = nxt, i_alpha = alpha,
                   player_states = (\<lambda>i. interpolateState slerp (by_id (players prev) i)
                                         (by_id (players nxt) i) alpha),
                   prop_states = (\<lambda>i. interpolateState slerp (by_id (props prev) i)
                                       (by_id (props nxt) i) alpha)\<rparr>)))"

text \<open>What happens to the client between frames: a message arrives, a frame is rendered
  (\<open>tick\<close> calls \<open>applySnapshotInterpolation\<close> in online mode only), or the client falls back
  to the offline world.\<close>

datatype client_event =
    Message real real host_message
  | Render real
  | GoOffline

fun client_step :: "(quat \<Rightarrow> quat \<Rightarrow> real \<Rightarrow> quat) \<Rightarrow> client_event \<Rightarrow> network \<Rightarrow> network" where
  "client_step slerp (Message perf_now date_now msg) n = handleMessage perf_now date_now msg n"
| "client_step slerp (Render perf_now) n =
     (if mode n = Online then fst (applySnapshotInterpolation slerp perf_now n) else n)"
| "client_step slerp GoOffline n = ensureOfflineWorld n"

fun run_client :: "(quat \<Rightarrow> quat \<Rightarrow> real \<Rightarrow> quat) \<Rightarrow> client_event list \<Rightarrow> network \<Rightarrow> network" where
  "run_client slerp [] n = n"
| "run_client slerp (e # es) n = run_client slerp es (client_step slerp e n)"
subsection \<open>The buffer stays sorted and bounded\<close>

definition buffer_ok :: "network \<Rightarrow> bool" where
  "buffer_ok n = (sorted (map sort_time (snapshotBuffer n)) \<and> length (snapshotBuffer n) \<le> 90)"

lemma sorted_map_tl: "sorted (map f xs) \<Longrightarrow> sorted (map f (tl xs))"
  by (cases xs) simp_all

lemma sorted_map_drop: "sorted (map f xs) \<Longrightarrow> sorted (map f (drop k xs))"
  by (simp add: drop_map [symmetric] sorted_wrt_drop)

lemma prune_loop_drop:
  "\<exists>k. prune_loop n rt buf = drop k buf
       \<and> (k = 0 \<or> k + 2 \<le> length buf)
       \<and> (\<forall>i<k. snapshotClientTime n (buf ! (i + 1)) \<le> rt)
       \<and> (length (drop k buf) \<le> 2 \<or> rt < snapshotClientTime n (drop k buf ! 1))"
proof (induction n rt buf rule: prune_loop.induct)
  case (1 n rt buf)
  show ?case
  proof (cases "length buf > 2 \<and> snapshotClientTime n (buf ! 1) \<le> rt")
    case True
    from "1.IH" [OF True] obtain k where
      k: "prune_loop n rt (tl buf) = drop k (tl buf)"
        "k = 0 \<or> k + 2 \<le> length (tl buf)"
        "\<forall>i<k. snapshotClientTime n (tl buf ! (i + 1)) \<le> rt"
        "length (drop k (tl buf)) \<le> 2 \<or> rt < snapshotClientTime n (drop k (tl buf) ! 1)"
      by blast
    have d: "drop (Suc k) buf = drop k (tl buf)"
      by (simp add: drop_Suc)
    have "prune_loop n rt buf = drop (Suc k) buf"
      using True k(1) d by (subst prune_loop.simps) simp
    moreover have "Suc k + 2 \<le> length buf"
      using True k(2) by auto
    moreover have "\<forall>i<Suc k. snapshotClientTime n (buf ! (i + 1)) \<le> rt"
    proof (intro allI impI)
      fix i assume i: "i < Suc k"
      show "snapshotClientTime n (buf ! (i + 1)) \<le> rt"
      proof (cases i)
        case 0
        with True show ?thesis by simp
      next
        case (Suc j)
        with i have j: "j < k" by simp
        with k(2) have "j + 1 < length (tl buf)" by auto
        then have "tl buf ! (j + 1) = buf ! (Suc j + 1)"
          by (simp add: nth_tl)
        with k(3) j Suc show ?thesis by auto
      qed
    qed
    moreover have "length (drop (Suc k) buf) \<le> 2
        \<or> rt < snapshotClientTime n (drop (Suc k) buf ! 1)"
      using k(4) unfolding d .
    ultimately show ?thesis
      by blast
  next
    case False
    then have "prune_loop n rt buf = drop 0 buf"
      by (subst prune_loop.simps) auto
    moreover from False have "length (drop 0 buf) \<le> 2 \<or> rt < snapshotClientTime n (drop 0 buf ! 1)"
      by auto
    ultimately show ?thesis
      by (intro exI [of _ 0]) simp
  qed
qed

lemma prune_loop_sorted: "sorted (map f buf) \<Longrightarrow> sorted (map f (prune_loop n rt buf))"
  using prune_loop_drop [of n rt buf] by (auto simp: sorted_map_drop)

lemma prune_loop_length: "length (prune_loop n rt buf) \<le> length buf"
  using prune_loop_drop [of n rt buf] by auto

lemma handleMessage_ok: "buffer_ok n \<Longrightarrow> buffer_ok (handleMessage perf_now date_now msg n)"
  by (cases msg) (auto simp: buffer_ok_def handleMessage_def Let_def sorted_map_tl)

lemma applySnapshotInterpolation_ok:
  "buffer_ok n \<Longrightarrow> buffer_ok (fst (applySnapshotInterpolation slerp perf_now n))"
proof -
  assume ok: "buffer_ok n"
  have "length (prune_loop n rt (sort_key sort_time (snapshotBuffer n))) \<le> 90" for rt
    using prune_loop_length [of n rt "sort_key sort_time (snapshotBuffer n)"] ok
    by (simp add: buffer_ok_def)
  then show ?thesis
    using ok by (simp add: applySnapshotInterpolation_def Let_def buffer_ok_def prune_loop_sorted)
qed

lemma client_step_ok: "buffer_ok n \<Longrightarrow> buffer_ok (client_step slerp e n)"
  by (cases e)
    (simp_all add: handleMessage_ok applySnapshotInterpolation_ok,
     simp add: buffer_ok_def ensureOfflineWorld_def)

lemma run_client_ok: "buffer_ok n \<Longrightarrow> buffer_ok (run_client slerp es n)"
  by (induction es arbitrary: n) (simp_all add: client_step_ok)

lemma buffer_ok_init: "buffer_ok network_init"
  by (simp add: buffer_ok_def network_init_def)

lemma sorted_client_time:
  "sorted (map sort_time buf) \<Longrightarrow> sorted (map (snapshotClientTime n) buf)"
  by (simp add: sorted_map snapshotClientTime_def sort_time_def)
lemma sort_key_hd_min:
  assumes "xs \<noteq> []"
  shows "\<forall>s\<in>set xs. f (hd (sort_key f xs)) \<le> f s"
proof -
  from assms have ne: "sort_key f xs \<noteq> []"
    by (metis length_sort length_0_conv)
  then obtain y ys where ys: "sort_key f xs = y # ys"
    by (cases "sort_key f xs") auto
  have "sorted (map f (y # ys))"
    unfolding ys [symmetric] by (rule sorted_sort_key)
  then have "\<forall>z\<in>set ys. f y \<le> f z"
    by simp
  moreover have "set xs = set (y # ys)"
    unfolding ys [symmetric] by simp
  ultimately show ?thesis
    by (simp add: ys)
qed

lemma handleMessage_snapshot_mset:
  fixes n :: network and d :: snapshot and t t' :: real
  defines "snap \<equiv> d\<lparr>receivedAt := t\<rparr>"
  defines "n' \<equiv> handleMessage t t' (Snapshot d) n"
  assumes "length (snapshotBuffer n) \<le> 90"
  shows "if length (snapshotBuffer n) < 90
         then mset (snapshotBuffer n') = add_mset snap (mset (snapshotBuffer n))
         else \<exists>e. add_mset snap (mset (snapshotBuffer n)) = add_mset e (mset (snapshotBuffer n'))
                \<and> (\<forall>s\<in>set (snap # snapshotBuffer n). sort_time e \<le> sort_time s)"
proof (cases "length (snapshotBuffer n) < 90")
  case True
  then show ?thesis
    by (simp add: n'_def snap_def handleMessage_def Let_def)
next
  case False
  with assms(3) have len: "length (snapshotBuffer n) = 90"
    by simp
  define srt where "srt = sort_key sort_time (snapshotBuffer n @ [snap])"
  have n': "snapshotBuffer n' = tl srt"
    using len by (simp add: n'_def snap_def srt_def handleMessage_def Let_def)
  have ne: "srt \<noteq> []"
    unfolding srt_def by (metis length_sort length_0_conv snoc_eq_iff_butlast)
  then have "mset srt = add_mset (hd srt) (mset (tl srt))"
    by (cases srt) simp_all
  moreover have "mset srt = add_mset snap (mset (snapshotBuffer n))"
    by (simp add: srt_def)
  moreover have "\<forall>s\<in>set (snapshotBuffer n @ [snap]). sort_time (hd srt) \<le> sort_time s"
    unfolding srt_def by (rule sort_key_hd_min) simp
  ultimately have "add_mset snap (mset (snapshotBuffer n)) = add_mset (hd srt) (mset (snapshotBuffer n'))
      \<and> (\<forall>s\<in>set (snap # snapshotBuffer n). sort_time (hd srt) \<le> sort_time s)"
    by (simp add: n')
  then show ?thesis
    using False by auto
qed

text \<open>
  C3 (as the code has it).  After any sequence of client events from the initial state
  (messages of every kind, rendered frames, falls back to offline) the snapshot buffer is
  sorted ascending by server time, hence also by adjusted time, and holds at most 90
  entries.  A received snapshot is always stored: below 90 entries the buffer gains
  exactly that snapshot; at 90 entries exactly one entry leaves, one whose server time is
  least among the old entries and the new one.  The tick index plays no part.
\<close>

theorem snapshot_buffer_sorted_bounded:
  "(let n = run_client slerp es network_init;
        snap = d\<lparr>receivedAt := t\<rparr>;
        n' = handleMessage t t' (Snapshot d) n
    in sorted (map sort_time (snapshotBuffer n))
       \<and> sorted (map (snapshotClientTime n) (snapshotBuffer n))
       \<and> length (snapshotBuffer n) \<le> 90
       \<and> (if length (snapshotBuffer n) < 90
           then mset (snapshotBuffer n') = add_mset snap (mset (snapshotBuffer n))
           else \<exists>e. add_mset snap (mset (snapshotBuffer n)) = add_mset e (mset (snapshotBuffer n'))
                  \<and> (\<forall>s\<in>set (snap # snapshotBuffer n). sort_time e \<le> sort_time s)))"
proof -
  have ok: "buffer_ok (run_client slerp es network_init)"
    using buffer_ok_init by (rule run_client_ok)
  then have len: "length (snapshotBuffer (run_client slerp es network_init)) \<le> 90"
    and srt: "sorted (map sort_time (snapshotBuffer (run_client slerp es network_init)))"
    by (simp_all add: buffer_ok_def)
  from srt have "sorted (map (snapshotClientTime (run_client slerp es network_init))
      (snapshotBuffer (run_client slerp es network_init)))"
    by (rule sorted_client_time)
  with len srt handleMessage_snapshot_mset [OF len, of t t' d] show ?thesis
    unfolding Let_def by simp
qed

definition demo_snap :: "int \<Rightarrow> real \<Rightarrow> snapshot" where
  "demo_snap k st = \<lparr>snap_tick = k, serverTime = Some st, players = [], props = [], receivedAt = 0\<rparr>"

lemma demo_run:
  "snapshotBuffer (run_client slerp
      [Message 5 5 (Snapshot (demo_snap 7 200)), Message 6 6 (Snapshot (demo_snap 7 100))]
      network_init)
   = [(demo_snap 7 100)\<lparr>receivedAt := 6\<rparr>, (demo_snap 7 200)\<lparr>receivedAt := 5\<rparr>]"
  by (simp add: handleMessage_def network_init_def sort_time_def num_or_def demo_snap_def)

theorem snapshot_buffer_sorted_bounded_witness:
  "sorted (map sort_time [(demo_snap 7 100)\<lparr>receivedAt := 6\<rparr>, (demo_snap 7 200)\<lparr>receivedAt := 5\<rparr>])
   \<and> mset (snapshotBuffer (handleMessage 9 9 (Snapshot (demo_snap 8 150))
        (run_client (\<lambda>qa qb u. qa)
          [Message 5 5 (Snapshot (demo_snap 7 200)), Message 6 6 (Snapshot (demo_snap 7 100))]
          network_init)))
     = {#(demo_snap 8 150)\<lparr>receivedAt := 9\<rparr>, (demo_snap 7 100)\<lparr>receivedAt := 6\<rparr>,
         (demo_snap 7 200)\<lparr>receivedAt := 5\<rparr>#}"
  using snapshot_buffer_sorted_bounded
    [where slerp = "\<lambda>qa qb u. qa"
       and es = "[Message 5 5 (Snapshot (demo_snap 7 200)), Message 6 6 (Snapshot (demo_snap 7 100))]"
       and d = "demo_snap 8 150" and t = 9 and t' = 9]
  unfolding Let_def demo_run by simp

text \<open>
  C3, counterexample.  The claim as stated fails: the buffer can hold two entries with the same tick index.
  Two snapshot messages with tick 7 are both stored.
\<close>

theorem snapshot_buffer_duplicate_ticks:
  "\<not> distinct (map snap_tick (snapshotBuffer (run_client (\<lambda>qa qb u. qa)
      [Message 5 5 (Snapshot (demo_snap 7 200)), Message 6 6 (Snapshot (demo_snap 7 100))]
      network_init)))"
  unfolding demo_run by (simp add: demo_snap_def)
subsection \<open>The interpolation pair of a frame\<close>

lemma clamp_unit: "0 \<le> clamp v 0 1 \<and> clamp v 0 1 \<le> 1"
  by (simp add: clamp_def)

lemma find_first:
  "(case find P buf of Some s \<Rightarrow> s | None \<Rightarrow> buf ! (length buf - 1)) = x \<Longrightarrow> buf \<noteq> [] \<Longrightarrow>
   (if \<exists>s\<in>set buf. P s
    then \<exists>j<length buf. x = buf ! j \<and> P (buf ! j) \<and> (\<forall>i<j. \<not> P (buf ! i))
    else x = last buf)"
proof (cases "find P buf")
  case None
  assume "(case find P buf of Some s \<Rightarrow> s | None \<Rightarrow> buf ! (length buf - 1)) = x" "buf \<noteq> []"
  moreover from None have "\<not> (\<exists>s\<in>set buf. P s)"
    by (auto simp: find_None_iff)
  ultimately show ?thesis
    using None by (simp add: last_conv_nth)
next
  case (Some s)
  assume "(case find P buf of Some s \<Rightarrow> s | None \<Rightarrow> buf ! (length buf - 1)) = x" "buf \<noteq> []"
  with Some have x: "find P buf = Some x"
    by simp
  then obtain j where j: "j < length buf" "P (buf ! j)" "x = buf ! j" "\<forall>i<j. \<not> P (buf ! i)"
    unfolding find_Some_iff by blast
  then have "\<exists>s\<in>set buf. P s"
    by (metis nth_mem)
  with j show ?thesis
    by auto
qed

text \<open>
  C2.  For a non-empty buffer, with \<open>renderTime = now - snapshotDelay * 1000\<close> and the
  buffer sorted by server time first (which changes nothing when it is sorted already,
  as it always is):  the frame drops some number \<open>k\<close> of entries from the front; each of
  them was dropped while more than two entries were left and the then second entry's
  adjusted time was at most \<open>renderTime\<close>; dropping stops as soon as at most two
  entries are left or the second entry is later than \<open>renderTime\<close>.  Then \<open>prev\<close> is the
  front of what is left, \<open>next\<close> is its first entry with adjusted time at least
  \<open>renderTime\<close>, or its last entry when there is none, and
  \<open>alpha = clamp ((renderTime - prevTime) / max 1 (nextTime - prevTime)) 0 1\<close>, a number in [0,1].
  An empty buffer is left alone and nothing is interpolated.
\<close>

theorem applySnapshotInterpolation_pair:
  assumes "snapshotBuffer n \<noteq> []"
  shows "\<exists>k out.
     (let sb = sort_key sort_time (snapshotBuffer n);
          rt = perf_now - snapshotDelay n * 1000;
          ct = snapshotClientTime n;
          buf = drop k sb
      in applySnapshotInterpolation slerp perf_now n = (n\<lparr>snapshotBuffer := buf\<rparr>, Some out)
         \<and> (k = 0 \<or> k + 2 \<le> length sb)
         \<and> (\<forall>i<k. ct (sb ! (i + 1)) \<le> rt)
         \<and> (length buf \<le> 2 \<or> rt < ct (buf ! 1))
         \<and> buf \<noteq> []
         \<and> i_prev out = hd buf
         \<and> (if \<exists>s\<in>set buf. rt \<le> ct s
             then \<exists>j<length buf. i_next out = buf ! j \<and> rt \<le> ct (buf ! j)
                    \<and> (\<forall>i<j. ct (buf ! i) < rt)
             else i_next out = last buf)
         \<and> i_alpha out
             = max 0 (min 1 ((rt - ct (i_prev out)) / max 1 (ct (i_next out) - ct (i_prev out))))
         \<and> 0 \<le> i_alpha out \<and> i_alpha out \<le> 1
         \<and> (sorted (map sort_time (snapshotBuffer n)) \<longrightarrow> sb = snapshotBuffer n)
         \<and> applySnapshotInterpolation slerp perf_now (n\<lparr>snapshotBuffer := []\<rparr>)
             = (n\<lparr>snapshotBuffer := []\<rparr>, None))"
proof -
  define sb where "sb = sort_key sort_time (snapshotBuffer n)"
  define rt where "rt = perf_now - snapshotDelay n * 1000"
  define ct where "ct = snapshotClientTime n"
  from assms have sb_ne: "sb \<noteq> []"
    unfolding sb_def by (metis length_sort length_0_conv)
  from prune_loop_drop [of n rt sb] obtain k where
    k: "prune_loop n rt sb = drop k sb" "k = 0 \<or> k + 2 \<le> length sb"
       "\<forall>i<k. ct (sb ! (i + 1)) \<le> rt"
       "length (drop k sb) \<le> 2 \<or> rt < ct (drop k sb ! 1)"
    unfolding ct_def by blast
  define buf where "buf = drop k sb"
  have buf_ne: "buf \<noteq> []"
    using k(2) sb_ne by (auto simp: buf_def)
  define nxt where "nxt = (case find (\<lambda>s. rt \<le> ct s) buf of Some s \<Rightarrow> s
      | None \<Rightarrow> buf ! (length buf - 1))"
  define al where "al = clamp ((rt - ct (buf ! 0)) / max 1 (ct nxt - ct (buf ! 0))) 0 1"
  define out where "out = \<lparr>i_prev = buf ! 0, i_next = nxt, i_alpha = al,
      player_states = (\<lambda>i. interpolateState slerp (by_id (players (buf ! 0)) i)
         (by_id (players nxt) i) al),
      prop_states = (\<lambda>i. interpolateState slerp (by_id (props (buf ! 0)) i)
         (by_id (props nxt) i) al)\<rparr>"
  have run: "applySnapshotInterpolation slerp perf_now n = (n\<lparr>snapshotBuffer := buf\<rparr>, Some out)"
    unfolding applySnapshotInterpolation_def Let_def out_def al_def nxt_def buf_def
      ct_def rt_def sb_def k(1) [unfolded rt_def sb_def]
    using assms by simp
  have prev: "i_prev out = hd buf"
    using buf_ne by (simp add: out_def hd_conv_nth)
  have nxt: "if \<exists>s\<in>set buf. rt \<le> ct s
             then \<exists>j<length buf. i_next out = buf ! j \<and> rt \<le> ct (buf ! j)
                    \<and> (\<forall>i<j. ct (buf ! i) < rt)
             else i_next out = last buf"
    using find_first [where P = "\<lambda>s. rt \<le> ct s" and buf = buf and x = nxt,
        OF nxt_def [symmetric] buf_ne]
    by (auto simp: out_def not_le split: if_splits)
  have al: "i_alpha out
      = max 0 (min 1 ((rt - ct (i_prev out)) / max 1 (ct (i_next out) - ct (i_prev out))))"
    by (simp add: out_def al_def clamp_def)
  have unit: "0 \<le> i_alpha out \<and> i_alpha out \<le> 1"
    using clamp_unit by (simp add: out_def al_def)
  have srt: "sorted (map sort_time (snapshotBuffer n)) \<longrightarrow> sb = snapshotBuffer n"
    by (simp add: sb_def sort_key_id_if_sorted)
  have empty: "applySnapshotInterpolation slerp perf_now (n\<lparr>snapshotBuffer := []\<rparr>)
             = (n\<lparr>snapshotBuffer := []\<rparr>, None)"
    by (simp add: applySnapshotInterpolation_def)
  show ?thesis
    unfolding Let_def sb_def [symmetric] rt_def [symmetric] ct_def [symmetric]
    using run k(2,3,4) buf_ne prev nxt al unit srt empty
    unfolding buf_def by blast
qed
definition demo_net :: network where
  "demo_net = network_init\<lparr>mode := Online,
     snapshotBuffer := [demo_snap 1 100, demo_snap 2 150, demo_snap 3 200, demo_snap 4 250]\<rparr>"

lemma demo_times:
  "snapshotClientTime demo_net (demo_snap k st) = st" "sort_time (demo_snap k st) = st"
  "players (demo_snap k st) = []" "props (demo_snap k st) = []" "snap_tick (demo_snap k st) = k"
  by (simp_all add: snapshotClientTime_def sort_time_def num_or_def demo_snap_def demo_net_def
      network_init_def)

lemma demo_prune:
  "prune_loop demo_net 180 [demo_snap 1 100, demo_snap 2 150, demo_snap 3 200, demo_snap 4 250]
     = [demo_snap 2 150, demo_snap 3 200, demo_snap 4 250]"
  by (simp add: prune_loop.simps [of _ _ "[a, b, c, d]" for a b c d]
      prune_loop.simps [of _ _ "[a, b, c]" for a b c] demo_times)

lemma demo_apply:
  "applySnapshotInterpolation slerp 300 demo_net =
     (demo_net\<lparr>snapshotBuffer := [demo_snap 2 150, demo_snap 3 200, demo_snap 4 250]\<rparr>,
      Some \<lparr>i_prev = demo_snap 2 150, i_next = demo_snap 3 200, i_alpha = 3 / 5,
            player_states = (\<lambda>i. None), prop_states = (\<lambda>i. None)\<rparr>)"
proof -
  have buf: "snapshotBuffer demo_net
      = [demo_snap 1 100, demo_snap 2 150, demo_snap 3 200, demo_snap 4 250]"
    by (simp add: demo_net_def)
  have srt: "sort_key sort_time (snapshotBuffer demo_net)
      = [demo_snap 1 100, demo_snap 2 150, demo_snap 3 200, demo_snap 4 250]"
    unfolding buf by (simp add: demo_times)
  have rt: "300 - snapshotDelay demo_net * 1000 = 180"
    by (simp add: demo_net_def network_init_def)
  have ne: "snapshotBuffer demo_net \<noteq> []"
    by (simp add: buf)
  show ?thesis
    unfolding applySnapshotInterpolation_def Let_def srt rt demo_prune
    using ne by (simp add: demo_times clamp_def by_id_def interpolateState_def)
qed

theorem applySnapshotInterpolation_pair_witness:
  "snapshotBuffer demo_net \<noteq> []
   \<and> map snap_tick (snapshotBuffer (fst (applySnapshotInterpolation (\<lambda>qa qb u. qa) 300 demo_net)))
       = [2, 3, 4]
   \<and> (case snd (applySnapshotInterpolation (\<lambda>qa qb u. qa) 300 demo_net) of
         None \<Rightarrow> False
       | Some out \<Rightarrow> snap_tick (i_prev out) = 2 \<and> snap_tick (i_next out) = 3
                     \<and> i_alpha out = 3 / 5 \<and> 0 \<le> i_alpha out \<and> i_alpha out \<le> 1)"
proof -
  have ne: "snapshotBuffer demo_net \<noteq> []"
    by (simp add: demo_net_def)
  from applySnapshotInterpolation_pair [OF ne, of 300 "\<lambda>qa qb u. qa"]
  obtain k out where
    run: "applySnapshotInterpolation (\<lambda>qa qb u. qa) 300 demo_net
       = (demo_net\<lparr>snapshotBuffer := drop k (sort_key sort_time (snapshotBuffer demo_net))\<rparr>,
          Some out)"
    and unit: "0 \<le> i_alpha out \<and> i_alpha out \<le> 1"
    unfolding Let_def by blast
  from run have out: "out = \<lparr>i_prev = demo_snap 2 150, i_next = demo_snap 3 200, i_alpha = 3 / 5,
            player_states = (\<lambda>i. None), prop_states = (\<lambda>i. None)\<rparr>"
    by (simp add: demo_apply)
  have "map snap_tick (snapshotBuffer (fst (applySnapshotInterpolation (\<lambda>qa qb u. qa) 300 demo_net)))
       = [2, 3, 4]"
    by (simp add: demo_apply demo_times)
  moreover have "snd (applySnapshotInterpolation (\<lambda>qa qb u. qa) 300 demo_net) = Some out"
    by (simp add: run)
  moreover have "snap_tick (i_prev out) = 2 \<and> snap_tick (i_next out) = 3 \<and> i_alpha out = 3 / 5"
    by (simp add: out demo_times)
  ultimately show ?thesis
    using ne unit by simp
qed

section \<open>The host: sessions, input, liveness (server)\<close>

text \<open>
  A JSON value read from a field of a client's message.  \<open>JUndefined\<close> is a field that is
  missing.  Strings, arrays and objects carry the result of JavaScript's \<open>Number(...)\<close>
  on them (\<open>None\<close> for NaN), which is the only thing the host asks of them besides
  their truthiness.
\<close>

datatype jsval =
    JUndefined
  | JNull
  | JBool bool
  | JNum real
  | JStr string "real option"
  | JObj "real option"

fun js_Number :: "jsval \<Rightarrow> real option" where
  "js_Number JUndefined = None"
| "js_Number JNull = Some 0"
| "js_Number (JBool b) = Some (if b then 1 else 0)"
| "js_Number (JNum r) = Some r"
| "js_Number (JStr s r) = r"
| "js_Number (JObj r) = r"

fun js_Boolean :: "jsval \<Rightarrow> bool" where
  "js_Boolean JUndefined = False"
| "js_Boolean JNull = False"
| "js_Boolean (JBool b) = b"
| "js_Boolean (JNum r) = (r \<noteq> 0)"
| "js_Boolean (JStr s r) = (s \<noteq> [])"
| "js_Boolean (JObj r) = True"

record input_sample =
  steer :: real
  throttle :: real
  brake :: bool

datatype ready_state = CONNECTING | OPEN | CLOSING | CLOSED

text \<open>An entry of the \<open>clients\<close> map.  \<open>ws\<close> is the socket's \<open>readyState\<close>, or \<open>None\<close>
  while the field is still \<open>null\<close>; \<open>cl_bodyHandle\<close> and \<open>cl_colliderHandle\<close> are the
  fields \<open>bodyHandle\<close> and \<open>colliderHandle\<close>.\<close>

record client =
  ws :: "ready_state option"
  colorId :: nat
  cl_bodyHandle :: handle
  cl_colliderHandle :: handle
  lastInput :: input_sample
  lastSeq :: real
  lastSeen :: real

text \<open>
  The host's state: the \<open>clients\<close> map in insertion order, the bodies of the physics
  world, every frame sent so far with the id of the session it went to, and the ids
  whose socket the host has terminated.
\<close>

record server =
  clients :: "(string \<times> client) list"
  bodies :: world
  outbox :: "(string \<times> host_message) list"
  terminated :: "string list"

definition quatFromEuler0 :: quat where
  "quatFromEuler0 = Quat 0 0 0 1"

text \<open>
  \<open>spawnPlayer(id, colorIdx)\<close>.  The handles \<open>bh\<close> and \<open>ch\<close> are those the engine gives
  the new body and collider; \<open>now\<close> is \<open>Date.now()\<close>.  \<open>quatFromEuler(0)\<close> is
  \<open>{x: 0, y: sin 0, z: 0, w: cos 0}\<close>.
\<close>

definition spawnPlayer :: "string \<Rightarrow> nat \<Rightarrow> handle \<Rightarrow> handle \<Rightarrow> real \<Rightarrow> server \<Rightarrow> server" where
  "spawnPlayer i colorIdx bh ch now s =
     (let size = length (clients s);
          spawnX = real ((size mod 4) * 4) - 4;
          spawnZ = real ((size div 4) * 4) - 4;
          b = \<lparr>translation = Vec3 spawnX 0.6 spawnZ, rotation = quatFromEuler0,
               linvel = zero3, angvel = zero3\<rparr>
      in s\<lparr>bodies := (bodies s)(bh \<mapsto> b),
           clients := AList.update i
             \<lparr>ws = None, colorId = colorIdx, cl_bodyHandle = bh, cl_colliderHandle = ch,
              lastInput = \<lparr>steer = 0, throttle = 0, brake = False\<rparr>,
              lastSeq = 0, lastSeen = now\<rparr> (clients s)\<rparr>)"

definition removePlayer :: "string \<Rightarrow> server \<Rightarrow> server" where
  "removePlayer i s =
     (case map_of (clients s) i of
        None \<Rightarrow> s
      | Some entry \<Rightarrow>
          s\<lparr>bodies := (bodies s)(cl_bodyHandle entry := None),
            clients := AList.delete i (clients s)\<rparr>)"

text \<open>\<open>broadcast(data, skipId)\<close>: one frame to every other session whose socket is open.\<close>

definition broadcast :: "host_message \<Rightarrow> string option \<Rightarrow> server \<Rightarrow> server" where
  "broadcast data skipId s =
     s\<lparr>outbox := outbox s @
          map (\<lambda>(i, c). (i, data))
            (filter (\<lambda>(i, c). Some i \<noteq> skipId \<and> ws c = Some OPEN) (clients s))\<rparr>"

text \<open>
  \<open>handleConnection(ws)\<close> up to the registration of the handlers; \<open>i\<close> is the fresh
  \<open>randomUUID()\<close>.  The welcome frame is kept by its scalar fields.
\<close>

definition SERVER_TICK_RATE :: real where
  "SERVER_TICK_RATE = 60"

definition SNAPSHOT_RATE :: real where
  "SNAPSHOT_RATE = 20"

definition handleConnection :: "string \<Rightarrow> handle \<Rightarrow> handle \<Rightarrow> real \<Rightarrow> server \<Rightarrow> server" where
  "handleConnection i bh ch now s =
     (let s1 = spawnPlayer i (length (clients s) mod 8) bh ch now s;
          s2 = s1\<lparr>clients := map (\<lambda>(j, c). if j = i then (j, c\<lparr>ws := Some OPEN, lastSeen := now\<rparr>)
                                            else (j, c)) (clients s1)\<rparr>;
          s3 = s2\<lparr>outbox := outbox s2 @
                 [(i, Welcome i (Some SERVER_TICK_RATE) (Some SNAPSHOT_RATE) (Some now))]\<rparr>
      in broadcast (PlayerJoined i) (Some i) s3)"

text \<open>
  A frame from a client after \<open>JSON.parse\<close>: text that does not parse, the value \<open>null\<close>
  (reading \<open>data.type\<close> of it throws), a record with \<open>type === 'input'\<close> and its fields
  \<open>steer\<close>, \<open>throttle\<close>, \<open>brake\<close>, \<open>seq\<close>, or anything else.
\<close>

datatype client_frame =
    BadJson
  | NullJson
  | InputFrame jsval jsval jsval jsval
  | OtherFrame

text \<open>The \<open>message\<close> handler of session \<open>i\<close>; \<open>None\<close> is the uncaught TypeError.\<close>

definition on_message :: "string \<Rightarrow> client_frame \<Rightarrow> real \<Rightarrow> server \<Rightarrow> server option" where
  "on_message i frame now s =
     (case frame of
        BadJson \<Rightarrow> Some s
      | NullJson \<Rightarrow> None
      | OtherFrame \<Rightarrow> Some s
      | InputFrame st th br sq \<Rightarrow>
          (case map_of (clients s) i of
             None \<Rightarrow> Some s
           | Some c \<Rightarrow>
               Some (s\<lparr>clients := AList.update i
                  (c\<lparr>lastInput := \<lparr>steer = num_or (js_Number st) 0,
                                    throttle = num_or (js_Number th) 0,
                                    brake = js_Boolean br\<rparr>,
                     lastSeq := (case sq of JNum r \<Rightarrow> r | _ \<Rightarrow> lastSeq c),
                     lastSeen := now\<rparr>) (clients s)\<rparr>)))"

text \<open>The \<open>close\<close> handler of session \<open>i\<close>.\<close>

definition on_close :: "string \<Rightarrow> server \<Rightarrow> server" where
  "on_close i s = broadcast (PlayerLeft i) (Some i) (removePlayer i s)"

definition HEARTBEAT_MS :: real where
  "HEARTBEAT_MS = 15000"

text \<open>
  One round of the heartbeat loop body, for the entry of \<open>i\<close>.  \<open>ws.terminate()\<close> is
  recorded in \<open>terminated\<close>; the socket library answers it with the \<open>close\<close> event of
  that socket.  \<open>ws.ping()\<close> changes nothing the host keeps.
\<close>

definition heartbeat_entry :: "real \<Rightarrow> string \<Rightarrow> server \<Rightarrow> server" where
  "heartbeat_entry now i s =
     (case map_of (clients s) i of
        None \<Rightarrow> s
      | Some c \<Rightarrow>
          if ws c \<noteq> Some OPEN then s
          else if now - lastSeen c > HEARTBEAT_MS * 2 then
            broadcast (PlayerLeft i) (Some i)
              (removePlayer i (s\<lparr>terminated := terminated s @ [i]\<rparr>))
          else s)"

text \<open>The heartbeat timer: the loop over \<open>clients.entries()\<close>.  Deleting the entry being
  visited does not disturb the iteration of a \<open>Map\<close>.\<close>

definition heartbeat :: "real \<Rightarrow> server \<Rightarrow> server" where
  "heartbeat now s = fold (heartbeat_entry now) (map fst (clients s)) s"

text \<open>What the host reacts to.\<close>

datatype server_event =
    Connect string handle handle real
  | Frame string client_frame real
  | Close string
  | Heartbeat real

fun server_step :: "server_event \<Rightarrow> server \<Rightarrow> server option" where
  "server_step (Connect i bh ch now) s = Some (handleConnection i bh ch now s)"
| "server_step (Frame i frame now) s = on_message i frame now s"
| "server_step (Close i) s = Some (on_close i s)"
| "server_step (Heartbeat now) s = Some (heartbeat now s)"

fun run_server :: "server_event list \<Rightarrow> server \<Rightarrow> server option" where
  "run_server [] s = Some s"
| "run_server (e # es) s =
     (case server_step e s of None \<Rightarrow> None | Some s' \<Rightarrow> run_server es s')"

definition server_init :: server where
  "server_init = \<lparr>clients = [], bodies = Map.empty, outbox = [], terminated = []\<rparr>"
subsection \<open>Input frames\<close>

lemma map_of_update_other: "j \<noteq> i \<Longrightarrow> map_of (AList.update i v al) j = map_of al j"
  by (simp add: update_conv')

lemma keys_update_present:
  "map_of al i = Some c \<Longrightarrow> map fst (AList.update i v al) = map fst al"
  by (simp add: update_keys weak_map_of_SomeI domI dom_map_of_conv_image_fst [symmetric])

text \<open>
  C4 (as the code has it).  For a session that exists, every \<open>input\<close> frame overwrites the
  stored input sample with the frame's converted fields (the last frame received wins)
  and stamps \<open>lastSeen\<close>.  The stored sequence number becomes the frame's \<open>seq\<close> whenever
  that is a number, whether it is lower than, equal to or higher than the stored one,
  and is kept otherwise.  No other session, no body and no outgoing frame is touched.
\<close>

theorem on_message_input_overwrites:
  assumes "map_of (clients s) i = Some c"
  shows "\<exists>s'. on_message i (InputFrame st th br sq) now s = Some s'
    \<and> map_of (clients s') i =
        Some (c\<lparr>lastInput := \<lparr>steer = num_or (js_Number st) 0,
                               throttle = num_or (js_Number th) 0,
                               brake = js_Boolean br\<rparr>,
                lastSeq := (case sq of JNum r \<Rightarrow> r | _ \<Rightarrow> lastSeq c),
                lastSeen := now\<rparr>)
    \<and> (\<forall>j. j \<noteq> i \<longrightarrow> map_of (clients s') j = map_of (clients s) j)
    \<and> map fst (clients s') = map fst (clients s)
    \<and> bodies s' = bodies s \<and> outbox s' = outbox s \<and> terminated s' = terminated s"
  using assms
  by (simp add: on_message_def update_conv' map_of_update_other keys_update_present)

definition demo_client :: "real \<Rightarrow> handle \<Rightarrow> client" where
  "demo_client seen h =
     \<lparr>ws = Some OPEN, colorId = 0, cl_bodyHandle = h, cl_colliderHandle = h,
      lastInput = \<lparr>steer = 0, throttle = 0, brake = False\<rparr>, lastSeq = 5, lastSeen = seen\<rparr>"

definition demo_server :: server where
  "demo_server =
     \<lparr>clients = [(''a'', demo_client 0 1), (''b'', demo_client 40000 2)],
      bodies = [1 \<mapsto> demo_body, 2 \<mapsto> demo_body], outbox = [], terminated = []\<rparr>"

theorem on_message_input_overwrites_witness:
  "map_of (clients demo_server) ''b'' = Some (demo_client 40000 2)
   \<and> (case on_message ''b'' (InputFrame (JNum (1/2)) (JStr ''x'' None) JUndefined (JStr ''9'' (Some 9)))
              41000 demo_server of
        None \<Rightarrow> False
      | Some s' \<Rightarrow>
          map_of (clients s') ''b'' =
            Some ((demo_client 40000 2)
                    \<lparr>lastInput := \<lparr>steer = 1/2, throttle = 0, brake = False\<rparr>,
                      lastSeq := 5, lastSeen := 41000\<rparr>)
          \<and> map_of (clients s') ''a'' = Some (demo_client 0 1))"
proof -
  have c: "map_of (clients demo_server) ''b'' = Some (demo_client 40000 2)"
    by (simp add: demo_server_def)
  from on_message_input_overwrites [OF c,
      of "JNum (1/2)" "JStr ''x'' None" JUndefined "JStr ''9'' (Some 9)" 41000]
  obtain s' where
    "on_message ''b'' (InputFrame (JNum (1/2)) (JStr ''x'' None) JUndefined (JStr ''9'' (Some 9)))
        41000 demo_server = Some s'"
    "map_of (clients s') ''b'' =
        Some ((demo_client 40000 2)
          \<lparr>lastInput := \<lparr>steer = num_or (js_Number (JNum (1/2))) 0,
                           throttle = num_or (js_Number (JStr ''x'' None)) 0,
                           brake = js_Boolean JUndefined\<rparr>,
            lastSeq := (case JStr ''9'' (Some 9) of JNum r \<Rightarrow> r | _ \<Rightarrow> lastSeq (demo_client 40000 2)),
            lastSeen := 41000\<rparr>)"
    "\<forall>j. j \<noteq> ''b'' \<longrightarrow> map_of (clients s') j = map_of (clients demo_server) j"
    by blast
  then show ?thesis
    using c by (simp add: num_or_def) (simp add: demo_server_def demo_client_def)
qed

text \<open>
  C4, counterexample.  The claim as stated fails: session \<open>a\<close> has applied sequence number 5; a frame with
  sequence number 3 is not discarded, it replaces both the input sample and the stored
  sequence number.
\<close>

theorem on_message_lower_seq_applied:
  "(case map_of (clients demo_server) ''a'' of
      None \<Rightarrow> False
    | Some c \<Rightarrow> lastSeq c = 5 \<and> lastInput c = \<lparr>steer = 0, throttle = 0, brake = False\<rparr>)
   \<and> (case on_message ''a'' (InputFrame (JNum 1) (JNum (- 1)) (JBool True) (JNum 3)) 1000 demo_server of
        None \<Rightarrow> False
      | Some s' \<Rightarrow>
         (case map_of (clients s') ''a'' of
            None \<Rightarrow> False
          | Some c' \<Rightarrow> lastSeq c' = 3 \<and> lastInput c' = \<lparr>steer = 1, throttle = - 1, brake = True\<rparr>))"
  by (simp add: on_message_def demo_server_def demo_client_def num_or_def)
subsection \<open>Heartbeat timeout\<close>

text \<open>
  A stale session and the frames its removal produces.  Session \<open>a\<close> was last seen at 0,
  session \<open>b\<close> at 40000; both sockets are open.  The sweep at 40000 (more than 30000 ms
  of silence for \<open>a\<close>) terminates \<open>a\<close>'s socket, removes the entry and the body and sends
  \<open>player-left\<close> to \<open>b\<close>; the \<open>close\<close> event that answers the termination runs the
  close handler, whose \<open>removePlayer\<close> finds nothing, and which sends \<open>player-left\<close> to
  \<open>b\<close> again.
\<close>

lemma demo_heartbeat:
  "heartbeat 40000 demo_server =
     \<lparr>clients = [(''b'', demo_client 40000 2)], bodies = [2 \<mapsto> demo_body],
      outbox = [(''b'', PlayerLeft ''a'')], terminated = [''a'']\<rparr>"
proof -
  have a: "heartbeat_entry 40000 ''a'' demo_server =
     \<lparr>clients = [(''b'', demo_client 40000 2)], bodies = [2 \<mapsto> demo_body],
      outbox = [(''b'', PlayerLeft ''a'')], terminated = [''a'']\<rparr>"
    by (auto simp: heartbeat_entry_def removePlayer_def broadcast_def demo_server_def
        demo_client_def HEARTBEAT_MS_def AList.delete_eq)
  have b: "heartbeat_entry 40000 ''b''
     \<lparr>clients = [(''b'', demo_client 40000 2)], bodies = [2 \<mapsto> demo_body],
      outbox = [(''b'', PlayerLeft ''a'')], terminated = [''a'']\<rparr> =
     \<lparr>clients = [(''b'', demo_client 40000 2)], bodies = [2 \<mapsto> demo_body],
      outbox = [(''b'', PlayerLeft ''a'')], terminated = [''a'']\<rparr>"
    by (simp add: heartbeat_entry_def demo_client_def HEARTBEAT_MS_def)
  have keys: "map fst (clients demo_server) = [''a'', ''b'']"
    by (simp add: demo_server_def)
  show ?thesis
    unfolding heartbeat_def keys by (simp add: a b)
qed

text \<open>
  C5, at the failing input.  After the sweep and the close event, session \<open>a\<close> and its
  body are gone, and \<open>b\<close> has been sent \<open>player-left\<close> for \<open>a\<close> twice, not once.
\<close>

theorem heartbeat_timeout_two_player_left:
  "run_server [Heartbeat 40000, Close ''a''] demo_server =
     Some \<lparr>clients = [(''b'', demo_client 40000 2)], bodies = [2 \<mapsto> demo_body],
           outbox = [(''b'', PlayerLeft ''a''), (''b'', PlayerLeft ''a'')],
           terminated = [''a'']\<rparr>
   \<and> length (filter (\<lambda>m. m = (''b'', PlayerLeft ''a''))
        (outbox (the (run_server [Heartbeat 40000, Close ''a''] demo_server)))) = 2"
proof -
  have "on_close ''a''
     \<lparr>clients = [(''b'', demo_client 40000 2)], bodies = [2 \<mapsto> demo_body],
      outbox = [(''b'', PlayerLeft ''a'')], terminated = [''a'']\<rparr> =
     \<lparr>clients = [(''b'', demo_client 40000 2)], bodies = [2 \<mapsto> demo_body],
      outbox = [(''b'', PlayerLeft ''a''), (''b'', PlayerLeft ''a'')], terminated = [''a'']\<rparr>"
    by (simp add: on_close_def removePlayer_def broadcast_def demo_client_def)
  then show ?thesis
    by (simp add: demo_heartbeat)
qed
section \<open>Spawn positions (server spawnPlayer, game.js getSafeSpawnTransform)\<close>

definition SAFE_ZONE_center :: vec3 where
  "SAFE_ZONE_center = Vec3 0 0 0"

definition SAFE_ZONE_radius :: real where
  "SAFE_ZONE_radius = 10"

definition SAFE_ZONE_height :: real where
  "SAFE_ZONE_height = 0.6"

definition SAFE_SPAWN_SLOTS :: "vec3 list" where
  "SAFE_SPAWN_SLOTS =
     [Vec3 0 0 0, Vec3 4 0 0, Vec3 (- 4) 0 0, Vec3 0 0 4, Vec3 0 0 (- 4),
      Vec3 4 0 4, Vec3 (- 4) 0 4, Vec3 4 0 (- 4), Vec3 (- 4) 0 (- 4)]"

text \<open>\<open>hashIdForSlot(text)\<close>: \<open>>>> 0\<close> reduces modulo \<open>2^32\<close>; a character stands for its
  code unit.\<close>

definition hashIdForSlot :: "string \<Rightarrow> nat" where
  "hashIdForSlot text = foldl (\<lambda>hash c. (hash * 31 + of_char c) mod 2 ^ 32) 0 text"

text \<open>\<open>getSafeSpawnTransform(id)\<close> returns \<open>{position, yaw}\<close>.\<close>

definition getSafeSpawnTransform :: "string \<Rightarrow> vec3 \<times> real" where
  "getSafeSpawnTransform i =
     (let idx = hashIdForSlot i mod length SAFE_SPAWN_SLOTS;
          slot = SAFE_SPAWN_SLOTS ! idx;
          pos = Vec3 (vx SAFE_ZONE_center + vx slot) (vy SAFE_ZONE_center + vy slot)
                     (vz SAFE_ZONE_center + vz slot)
      in (Vec3 (vx pos) SAFE_ZONE_height (vz pos), 0))"

text \<open>\<open>isInsideSafeZone(x, z, margin)\<close>; \<open>Math.hypot(dx, dz)\<close> is the Euclidean length.\<close>

definition isInsideSafeZone :: "real \<Rightarrow> real \<Rightarrow> real \<Rightarrow> bool" where
  "isInsideSafeZone x z margin =
     (let dx = x - vx SAFE_ZONE_center; dz = z - vz SAFE_ZONE_center
      in sqrt (dx\<^sup>2 + dz\<^sup>2) < SAFE_ZONE_radius + margin)"

lemma sqrt_less_10: "sqrt a < 10 \<longleftrightarrow> a < 100"
proof -
  have "sqrt 100 = sqrt (10\<^sup>2)"
    by simp
  also have "\<dots> = 10"
    by (simp only: real_sqrt_abs)
  finally have "sqrt 100 = 10" .
  then show ?thesis
    by (metis real_sqrt_less_iff)
qed

lemma slots_inside:
  "p \<in> set SAFE_SPAWN_SLOTS \<Longrightarrow> isInsideSafeZone (vx p) (vz p) 0"
  by (auto simp: SAFE_SPAWN_SLOTS_def isInsideSafeZone_def SAFE_ZONE_center_def
      SAFE_ZONE_radius_def sqrt_less_10)

lemma spawnPlayer_body:
  "bodies (spawnPlayer i colorIdx bh ch now s) bh =
     Some \<lparr>translation = Vec3 (real ((length (clients s) mod 4) * 4) - 4) 0.6
                               (real ((length (clients s) div 4) * 4) - 4),
           rotation = Quat 0 0 0 1, linvel = Vec3 0 0 0, angvel = Vec3 0 0 0\<rparr>"
  by (simp add: spawnPlayer_def Let_def quatFromEuler0_def zero3_def)

text \<open>
  C6 (as the code has it).  The host puts the new participant's body at
  \<open>x = (n mod 4) * 4 - 4\<close>, \<open>y = 0.6\<close>, \<open>z = floor (n / 4) * 4 - 4\<close>, where \<open>n\<close> is the number
  of entries of \<open>clients\<close> at that moment; the position is the same for every id.  The
  slot chosen by a hash of the id belongs to the client: \<open>getSafeSpawnTransform(id)\<close>
  takes slot \<open>hashIdForSlot(id) mod 9\<close> of the fixed table at height 0.6, which depends on
  the id only, and every such position lies inside the safe zone (radius 10 around the
  origin).
\<close>

theorem spawn_positions:
  "(\<exists>b. bodies (spawnPlayer i colorIdx bh ch now s) bh = Some b
        \<and> translation b = Vec3 (real ((length (clients s) mod 4) * 4) - 4) 0.6
                                (real ((length (clients s) div 4) * 4) - 4))
   \<and> bodies (spawnPlayer i colorIdx bh ch now s) bh = bodies (spawnPlayer j colorIdx bh ch now s) bh
   \<and> hashIdForSlot i mod 9 < length SAFE_SPAWN_SLOTS
   \<and> fst (getSafeSpawnTransform i) =
        Vec3 (vx (SAFE_SPAWN_SLOTS ! (hashIdForSlot i mod 9))) 0.6
             (vz (SAFE_SPAWN_SLOTS ! (hashIdForSlot i mod 9)))
   \<and> isInsideSafeZone (vx (fst (getSafeSpawnTransform i))) (vz (fst (getSafeSpawnTransform i))) 0"
proof -
  have len: "length SAFE_SPAWN_SLOTS = 9"
    by (simp add: SAFE_SPAWN_SLOTS_def)
  then have idx: "hashIdForSlot i mod 9 < length SAFE_SPAWN_SLOTS"
    by simp
  then have mem: "SAFE_SPAWN_SLOTS ! (hashIdForSlot i mod 9) \<in> set SAFE_SPAWN_SLOTS"
    by (rule nth_mem)
  have pos: "fst (getSafeSpawnTransform i) =
        Vec3 (vx (SAFE_SPAWN_SLOTS ! (hashIdForSlot i mod 9))) 0.6
             (vz (SAFE_SPAWN_SLOTS ! (hashIdForSlot i mod 9)))"
    by (simp add: getSafeSpawnTransform_def Let_def len SAFE_ZONE_center_def SAFE_ZONE_height_def)
  have "isInsideSafeZone (vx (fst (getSafeSpawnTransform i))) (vz (fst (getSafeSpawnTransform i))) 0"
    using slots_inside [OF mem] by (simp add: pos)
  with idx pos show ?thesis
    by (simp add: spawnPlayer_body)
qed

text \<open>
  C6, counterexample.  The claim as stated fails on the host: the same id is spawned at different positions
  depending on how many clients are connected (none, or one).
\<close>

theorem spawn_depends_on_client_count:
  "length (clients server_init) = 0
   \<and> length (clients (handleConnection ''b'' 8 9 0 server_init)) = 1
   \<and> bodies (spawnPlayer ''a'' 0 7 7 0 server_init) 7
       = Some \<lparr>translation = Vec3 (- 4) 0.6 (- 4), rotation = Quat 0 0 0 1,
               linvel = Vec3 0 0 0, angvel = Vec3 0 0 0\<rparr>
   \<and> bodies (spawnPlayer ''a'' 0 7 7 0 (handleConnection ''b'' 8 9 0 server_init)) 7
       = Some \<lparr>translation = Vec3 0 0.6 (- 4), rotation = Quat 0 0 0 1,
               linvel = Vec3 0 0 0, angvel = Vec3 0 0 0\<rparr>
   \<and> bodies (spawnPlayer ''a'' 0 7 7 0 server_init) 7
       \<noteq> bodies (spawnPlayer ''a'' 0 7 7 0 (handleConnection ''b'' 8 9 0 server_init)) 7"
proof -
  have n0: "length (clients server_init) = 0"
    by (simp add: server_init_def)
  have n1: "length (clients (handleConnection ''b'' 8 9 0 server_init)) = 1"
    by (simp add: handleConnection_def spawnPlayer_def broadcast_def server_init_def Let_def)
  show ?thesis
    by (simp add: spawnPlayer_body n0 n1)
qed
lemma hash_local: "hashIdForSlot ''local'' = 103145323"
  by (simp add: hashIdForSlot_def)

theorem spawn_positions_witness:
  "fst (getSafeSpawnTransform ''local'') = Vec3 0 0.6 (- 4)
   \<and> isInsideSafeZone 0 (- 4) 0
   \<and> (case bodies (spawnPlayer ''local'' 0 7 7 0 demo_server) 7 of
         None \<Rightarrow> False
       | Some b \<Rightarrow> translation b = Vec3 4 0.6 (- 4))"
proof -
  note th = spawn_positions [of "''local''" 0 7 7 0 demo_server "''local''"]
  have slot: "SAFE_SPAWN_SLOTS ! (hashIdForSlot ''local'' mod 9) = Vec3 0 0 (- 4)"
    by (simp add: hash_local SAFE_SPAWN_SLOTS_def)
  from th have pos: "fst (getSafeSpawnTransform ''local'') = Vec3 0 0.6 (- 4)"
    by (simp add: slot)
  from th have "isInsideSafeZone (vx (fst (getSafeSpawnTransform ''local'')))
      (vz (fst (getSafeSpawnTransform ''local''))) 0"
    by blast
  then have ins: "isInsideSafeZone 0 (- 4) 0"
    by (simp add: pos)
  from th obtain b where "bodies (spawnPlayer ''local'' 0 7 7 0 demo_server) 7 = Some b"
    "translation b = Vec3 (real ((length (clients demo_server) mod 4) * 4) - 4) 0.6
                          (real ((length (clients demo_server) div 4) * 4) - 4)"
    by blast
  then have "case bodies (spawnPlayer ''local'' 0 7 7 0 demo_server) 7 of
         None \<Rightarrow> False
       | Some b \<Rightarrow> translation b = Vec3 4 0.6 (- 4)"
    by (simp add: demo_server_def)
  with pos ins show ?thesis
    by blast
qed

section \<open>Player forces and the soft speed clamp (game.js, applyPlayerForces)\<close>

text \<open>
  Modelled from the spec: the vector operations belong to three.js (\<open>THREE.Vector3\<close>),
  which is not part of the repository's sources: \<open>dot\<close>, \<open>length\<close>, \<open>multiplyScalar\<close> and
  \<open>normalize\<close> (\<open>v_normalize\<close> here), the last being \<open>divideScalar(length() || 1)\<close>.
\<close>

definition v_dot :: "vec3 \<Rightarrow> vec3 \<Rightarrow> real" where
  "v_dot a b = vx a * vx b + vy a * vy b + vz a * vz b"

definition v_length :: "vec3 \<Rightarrow> real" where
  "v_length a = sqrt ((vx a)\<^sup>2 + (vy a)\<^sup>2 + (vz a)\<^sup>2)"

definition multiplyScalar :: "real \<Rightarrow> vec3 \<Rightarrow> vec3" where
  "multiplyScalar k a = Vec3 (vx a * k) (vy a * k) (vz a * k)"


definition v_add :: "vec3 \<Rightarrow> vec3 \<Rightarrow> vec3" where
  "v_add a b = Vec3 (vx a + vx b) (vy a + vy b) (vz a + vz b)"



text \<open>The calls the function makes on the player's rigid body, in order.\<close>

datatype rb_call =
    ApplyImpulse vec3
  | ApplyTorqueImpulse vec3
  | SetAngvel vec3


record rb_view =
  rb_forward :: vec3
  rb_right :: vec3
  rb_linvel :: vec3
  rb_angvel :: vec3






text \<open>
  Modelled from the spec: the physics engine is an external collaborator; of its
  \<open>applyImpulse\<close> the model keeps what an impulse is, a change of the linear velocity by
  impulse / mass.  Torque impulses and \<open>setAngvel\<close> leave the linear velocity alone.
\<close>

fun linvel_after :: "real \<Rightarrow> rb_call list \<Rightarrow> vec3 \<Rightarrow> vec3" where
  "linvel_after m [] v = v"
| "linvel_after m (ApplyImpulse j # cs) v = linvel_after m cs (v_add v (multiplyScalar (1 / m) j))"
| "linvel_after m (ApplyTorqueImpulse t # cs) v = linvel_after m cs v"
| "linvel_after m (SetAngvel a # cs) v = linvel_after m cs v"
lemma v_length_nonneg: "0 \<le> v_length a"
  by (simp add: v_length_def)










lemma v_length_axis: "v_length (Vec3 0 0 z) = \<bar>z\<bar>"
  by (simp add: v_length_def)

lemma v_length_ge_z: "\<bar>vz a\<bar> \<le> v_length a"
proof -
  have "sqrt ((vz a)\<^sup>2) \<le> sqrt ((vx a)\<^sup>2 + (vy a)\<^sup>2 + (vz a)\<^sup>2)"
    by (intro real_sqrt_le_mono) simp
  then show ?thesis
    by (simp add: v_length_def)
qed


definition demo_rb :: rb_view where
  "demo_rb = \<lparr>rb_forward = Vec3 0 0 (- 1), rb_right = Vec3 1 0 0,
                rb_linvel = Vec3 0 0 (- 12), rb_angvel = Vec3 0 0 0\<rparr>"




lemma demo_speed: "v_length (rb_linvel demo_rb) = 12" "v_dot (rb_linvel demo_rb) (rb_forward demo_rb) = 12"
  by (simp_all add: demo_rb_def v_length_axis v_dot_def)




text \<open>The mass plays no part in this: for every positive mass the same step leaves the
  body faster than it found it.\<close>

lemma full_throttle_any_mass:
  assumes "0 < m"
  shows "v_length (rb_linvel demo_rb)
       < v_length (linvel_after m
           [ApplyImpulse (Vec3 0 0 (- 4.8)), ApplyTorqueImpulse (Vec3 0 0 0),
            ApplyImpulse (Vec3 0 (- 0.056) 0), ApplyImpulse (Vec3 0 0 0.32)]
           (rb_linvel demo_rb))"
proof -
  define w where "w = linvel_after m
           [ApplyImpulse (Vec3 0 0 (- 4.8)), ApplyTorqueImpulse (Vec3 0 0 0),
            ApplyImpulse (Vec3 0 (- 0.056) 0), ApplyImpulse (Vec3 0 0 0.32)]
           (rb_linvel demo_rb)"
  have "vz w = - 12 - 4.48 / m"
    by (simp add: w_def demo_rb_def v_add_def multiplyScalar_def field_simps)
  moreover have "0 < 4.48 / m"
    using assms by simp
  ultimately have "12 < \<bar>vz w\<bar>"
    by linarith
  also have "\<dots> \<le> v_length w"
    by (rule v_length_ge_z)
  finally show ?thesis
    by (simp add: w_def demo_speed)
qed

end
